theory Spec2Isabelle
  imports Main "HOL-Library.Word" "HOL-Library.Multiset"
begin

unbundle bit_operations_syntax

text \<open>
  The merge session of \<^verbatim>\<open>App.tsx\<close>: the list of picked PDF documents with their page
  counts, the default output name, the checks before a merge, the assembly of the merged
  document, and the base64 conversion between file contents and bytes.  Component state
  and platform are passed explicitly; what throws returns an error value.
\<close>

section \<open>Strings and bytes\<close>

text \<open>
  A JavaScript string is a sequence of 16-bit code units; a \<^verbatim>\<open>Uint8Array\<close> is a
  sequence of bytes.  \<open>js\<close> writes an ASCII literal as such a string.
\<close>

type_synonym jschar = "16 word"
type_synonym jsstring = "jschar list"
type_synonym bytes = "8 word list"

definition js :: "string \<Rightarrow> jsstring" where
  "js s = map of_char s"

text \<open>
  \<^verbatim>\<open>String.prototype.trim\<close>: removes white space and line terminators
  (ECMA-262: TAB, VT, FF, SP, NBSP, ZWNBSP, the Unicode space separators, LF, CR, LS, PS)
  from both ends.
\<close>

definition isWhiteSpace :: "jschar \<Rightarrow> bool" where
  "isWhiteSpace c \<longleftrightarrow>
     c = 0x0009 \<or> c = 0x000A \<or> c = 0x000B \<or> c = 0x000C \<or> c = 0x000D \<or>
     c = 0x0020 \<or> c = 0x00A0 \<or> c = 0x1680 \<or> (0x2000 \<le> c \<and> c \<le> 0x200A) \<or>
     c = 0x2028 \<or> c = 0x2029 \<or> c = 0x202F \<or> c = 0x205F \<or> c = 0x3000 \<or>
     c = 0xFEFF"

definition trim :: "jsstring \<Rightarrow> jsstring" where
  "trim s = rev (dropWhile isWhiteSpace (rev (dropWhile isWhiteSpace s)))"

text \<open>
  Decimal rendering of a non-negative integer (below \<open>10^21\<close>), as a template literal
  renders \<^verbatim>\<open>Date.now()\<close> or a loop index.
\<close>

definition digit :: "nat \<Rightarrow> jschar" where
  "digit d = of_nat (48 + d)"

function numberToString :: "nat \<Rightarrow> jsstring" where
  "numberToString n =
     (if n < 10 then [digit n] else numberToString (n div 10) @ [digit (n mod 10)])"
  by pat_completeness auto
termination
  by (relation "measure (\<lambda>n. n)") auto

declare numberToString.simps [simp del]

section \<open>Errors\<close>

text \<open>
  What the code can throw: the two errors it raises itself (lines 45 and 165), the two
  the base64 library can raise, and the rejections of the file system and of the PDF
  library, which carry the message the alert of a failed operation shows.
\<close>

datatype error =
    CacheDirectoryUnavailable
  | SaveDirectoryUnavailable
  | InvalidStringLength
  | InvalidTypedArrayLength
  | FileSystemError jsstring
  | PdfError jsstring

section \<open>Base64 conversion (lines 28-32)\<close>

text \<open>
  Both conversions go through \<^verbatim>\<open>Buffer\<close> of the \<^verbatim>\<open>buffer\<close> package, whose base64
  codec is the \<^verbatim>\<open>base64-js\<close> package behind the clean-up step \<^verbatim>\<open>base64clean\<close>.
  The definitions below follow \<^verbatim>\<open>buffer\<close> 5.7.1 and \<^verbatim>\<open>base64-js\<close> 1.5.1.
  The operands of the bitwise operators are 32-bit integers; every value that occurs is
  below \<open>2^24\<close>, so the additions of the encoder never wrap.
\<close>

definition code :: jsstring where
  "code = js ''ABCDEFGHIJKLMNOPQRSTUVWXYZabcdefghijklmnopqrstuvwxyz0123456789+/''"

definition eqSign :: jschar where
  "eqSign = of_char CHR ''=''"

text \<open>\<^verbatim>\<open>lookup[n]\<close> inside a string concatenation: an absent entry reads \<open>undefined\<close>.\<close>

definition lookup :: "32 word \<Rightarrow> jsstring" where
  "lookup n = (if unat n < length code then [code ! unat n] else js ''undefined'')"

text \<open>
  The reverse table, filled by the loop over \<open>code\<close> and then with the two URL-safe
  characters.
\<close>

definition revLookup :: "jschar \<rightharpoonup> 32 word" where
  "revLookup =
     (fold (\<lambda>i m. m(code ! i \<mapsto> of_nat i)) [0..<length code] Map.empty)
       (of_char CHR ''-'' \<mapsto> 62, of_char CHR ''_'' \<mapsto> 63)"

text \<open>
  \<^verbatim>\<open>revLookup[b64.charCodeAt(i)]\<close> as an operand of a bitwise operator: an index out of
  range and an absent entry both read as 0.
\<close>

definition revLookupAt :: "jsstring \<Rightarrow> nat \<Rightarrow> 32 word" where
  "revLookupAt b64 i =
     (if i < length b64 then (case revLookup (b64 ! i) of Some v \<Rightarrow> v | None \<Rightarrow> 0) else 0)"

fun indexOf :: "jsstring \<Rightarrow> jschar \<Rightarrow> nat option" where
  "indexOf [] c = None"
| "indexOf (x # xs) c = (if x = c then Some 0 else map_option Suc (indexOf xs c))"

definition getLens :: "jsstring \<Rightarrow> error + nat \<times> nat" where
  "getLens b64 =
     (let len = length b64 in
      if len mod 4 > 0 then Inl InvalidStringLength
      else
        let validLen = (case indexOf b64 eqSign of None \<Rightarrow> len | Some k \<Rightarrow> k);
            placeHoldersLen = (if validLen = len then 0 else 4 - validLen mod 4)
        in Inr (validLen, placeHoldersLen))"

definition byteLength' :: "nat \<Rightarrow> nat \<Rightarrow> int" where
  "byteLength' validLen placeHoldersLen =
     (int validLen + int placeHoldersLen) * 3 div 4 - int placeHoldersLen"

text \<open>
  The main loop of \<^verbatim>\<open>toByteArray\<close>.  A typed array ignores a write beyond its length,
  as \<open>arr[k := v]\<close> does.  Where \<^verbatim>\<open>validLen - 4\<close> is negative the loop does not run,
  as with the bound 0 that the subtraction on natural numbers gives.
\<close>

function decodeLoop :: "jsstring \<Rightarrow> nat \<Rightarrow> nat \<Rightarrow> bytes \<Rightarrow> nat \<Rightarrow> nat \<times> bytes \<times> nat" where
  "decodeLoop b64 len i arr curByte =
     (if i < len then
        let tmp = push_bit 18 (revLookupAt b64 i) OR push_bit 12 (revLookupAt b64 (i + 1)) OR
                  push_bit 6 (revLookupAt b64 (i + 2)) OR revLookupAt b64 (i + 3);
            arr = arr[curByte := ucast (signed_drop_bit 16 tmp AND 0xFF)];
            arr = arr[curByte + 1 := ucast (signed_drop_bit 8 tmp AND 0xFF)];
            arr = arr[curByte + 2 := ucast (tmp AND 0xFF)]
        in decodeLoop b64 len (i + 4) arr (curByte + 3)
      else (i, arr, curByte))"
  by pat_completeness auto
termination
  by (relation "measure (\<lambda>(b64, len, i, arr, curByte). len - i)") auto

declare decodeLoop.simps [simp del]

definition toByteArray :: "jsstring \<Rightarrow> error + bytes" where
  "toByteArray b64 =
     (case getLens b64 of
        Inl e \<Rightarrow> Inl e
      | Inr (validLen, placeHoldersLen) \<Rightarrow>
          if byteLength' validLen placeHoldersLen < 0 then Inl InvalidTypedArrayLength
          else
            let arr = replicate (nat (byteLength' validLen placeHoldersLen)) 0;
                len = (if placeHoldersLen > 0 then validLen - 4 else validLen);
                (i, arr, curByte) = decodeLoop b64 len 0 arr 0;
                (arr, curByte) =
                  (if placeHoldersLen = 2 then
                     let tmp = push_bit 2 (revLookupAt b64 i) OR
                               signed_drop_bit 4 (revLookupAt b64 (i + 1))
                     in (arr[curByte := ucast (tmp AND 0xFF)], curByte + 1)
                   else (arr, curByte));
                (arr, curByte) =
                  (if placeHoldersLen = 1 then
                     let tmp = push_bit 10 (revLookupAt b64 i) OR
                               push_bit 4 (revLookupAt b64 (i + 1)) OR
                               signed_drop_bit 2 (revLookupAt b64 (i + 2));
                         arr = arr[curByte := ucast (signed_drop_bit 8 tmp AND 0xFF)]
                     in (arr[curByte + 1 := ucast (tmp AND 0xFF)], curByte + 2)
                   else (arr, curByte))
            in Inr arr)"

definition tripletToBase64 :: "32 word \<Rightarrow> jsstring" where
  "tripletToBase64 num =
     lookup (signed_drop_bit 18 num AND 0x3F) @ lookup (signed_drop_bit 12 num AND 0x3F) @
     lookup (signed_drop_bit 6 num AND 0x3F) @ lookup (num AND 0x3F)"

text \<open>\<^verbatim>\<open>uint8[i]\<close> as an operand: an index out of range reads as 0.\<close>

definition byteAt :: "bytes \<Rightarrow> nat \<Rightarrow> 32 word" where
  "byteAt uint8 i = (if i < length uint8 then ucast (uint8 ! i) else 0)"

function encodeChunkLoop :: "bytes \<Rightarrow> nat \<Rightarrow> nat \<Rightarrow> jsstring list \<Rightarrow> jsstring list" where
  "encodeChunkLoop uint8 i end output =
     (if i < end then
        let tmp = (push_bit 16 (byteAt uint8 i) AND 0xFF0000) +
                  (push_bit 8 (byteAt uint8 (i + 1)) AND 0xFF00) +
                  (byteAt uint8 (i + 2) AND 0xFF)
        in encodeChunkLoop uint8 (i + 3) end (output @ [tripletToBase64 tmp])
      else output)"
  by pat_completeness auto
termination
  by (relation "measure (\<lambda>(uint8, i, end, output). end - i)") auto

declare encodeChunkLoop.simps [simp del]

definition encodeChunk :: "bytes \<Rightarrow> nat \<Rightarrow> nat \<Rightarrow> jsstring" where
  "encodeChunk uint8 start end = concat (encodeChunkLoop uint8 start end [])"

definition maxChunkLength :: nat where
  "maxChunkLength = 16383"

function chunksLoop :: "bytes \<Rightarrow> nat \<Rightarrow> nat \<Rightarrow> jsstring list \<Rightarrow> jsstring list" where
  "chunksLoop uint8 i len2 parts =
     (if i < len2 then
        chunksLoop uint8 (i + maxChunkLength) len2
          (parts @ [encodeChunk uint8 i
                      (if i + maxChunkLength > len2 then len2 else i + maxChunkLength)])
      else parts)"
  by pat_completeness auto
termination
  by (relation "measure (\<lambda>(uint8, i, len2, parts). len2 - i)")
     (auto simp: maxChunkLength_def)

declare chunksLoop.simps [simp del]

definition fromByteArray :: "bytes \<Rightarrow> jsstring" where
  "fromByteArray uint8 =
     (let len = length uint8;
          extraBytes = len mod 3;
          parts = chunksLoop uint8 0 (len - extraBytes) [];
          parts =
            (if extraBytes = 1 then
               let tmp = byteAt uint8 (len - 1)
               in parts @ [lookup (signed_drop_bit 2 tmp) @ lookup (push_bit 4 tmp AND 0x3F) @
                           js ''=='']
             else if extraBytes = 2 then
               let tmp = push_bit 8 (byteAt uint8 (len - 2)) + byteAt uint8 (len - 1)
               in parts @ [lookup (signed_drop_bit 10 tmp) @
                           lookup (signed_drop_bit 4 tmp AND 0x3F) @
                           lookup (push_bit 2 tmp AND 0x3F) @ js ''='']
             else parts)
      in concat parts)"

text \<open>
  \<^verbatim>\<open>base64clean\<close>: the text up to the first \<open>=\<close>, trimmed, without the characters
  outside \<^verbatim>\<open>[+/0-9A-Za-z-_]\<close>; shorter than two characters it becomes empty; then
  padded to a multiple of four.
\<close>

definition isBase64Char :: "jschar \<Rightarrow> bool" where
  "isBase64Char c \<longleftrightarrow>
     c = of_char CHR ''+'' \<or> c = of_char CHR ''/'' \<or>
     (of_char CHR ''0'' \<le> c \<and> c \<le> of_char CHR ''9'') \<or>
     (of_char CHR ''A'' \<le> c \<and> c \<le> of_char CHR ''Z'') \<or>
     (of_char CHR ''a'' \<le> c \<and> c \<le> of_char CHR ''z'') \<or>
     c = of_char CHR ''-'' \<or> c = of_char CHR ''_''"

function padLoop :: "jsstring \<Rightarrow> jsstring" where
  "padLoop str = (if length str mod 4 \<noteq> 0 then padLoop (str @ [eqSign]) else str)"
  by pat_completeness auto
termination
proof (relation "measure (\<lambda>str. (4 - length str mod 4) mod 4)")
  show "wf (measure (\<lambda>str::jsstring. (4 - length str mod 4) mod 4))"
    by simp
next
  fix str :: jsstring
  assume "length str mod 4 \<noteq> 0"
  moreover have "length str mod 4 < 4"
    by simp
  ultimately have "(4 - Suc (length str) mod 4) mod 4 < (4 - length str mod 4) mod 4"
    by (simp add: mod_Suc) linarith
  then show "(str @ [eqSign], str) \<in> measure (\<lambda>str. (4 - length str mod 4) mod 4)"
    by simp
qed

declare padLoop.simps [simp del]

definition base64clean :: "jsstring \<Rightarrow> jsstring" where
  "base64clean str =
     (let str = takeWhile (\<lambda>c. c \<noteq> eqSign) str;
          str = filter isBase64Char (trim str)
      in if length str < 2 then [] else padLoop str)"

definition base64ToBytes :: "jsstring \<Rightarrow> error + bytes" where
  "base64ToBytes str = toByteArray (base64clean str)"

text \<open>
  Lines 28-29: \<^verbatim>\<open>Buffer.from(base64, 'base64')\<close> allocates a buffer of the decoded
  length and copies the decoded bytes into it; \<^verbatim>\<open>Uint8Array.from\<close> copies them again.
  Lines 31-32: \<^verbatim>\<open>Buffer.from(bytes)\<close> copies the bytes and \<^verbatim>\<open>toString('base64')\<close>
  encodes the whole buffer.
\<close>

definition base64ToUint8Array :: "jsstring \<Rightarrow> error + bytes" where
  "base64ToUint8Array base64 = base64ToBytes base64"

definition uint8ArrayToBase64 :: "bytes \<Rightarrow> jsstring" where
  "uint8ArrayToBase64 bs = fromByteArray bs"

section \<open>The session: items and component state (App.tsx, lines 17-25, 60-62)\<close>

record PdfItem =
  itemId :: jsstring
  name :: jsstring
  uri :: jsstring
  pages :: nat

definition MAX_TOTAL_PAGES :: nat where
  "MAX_TOTAL_PAGES = 150"

record app =
  data :: "PdfItem list"
  fileName :: jsstring
  merging :: bool

subsection \<open>Default output name (lines 65-69)\<close>

text \<open>
  The pattern \<^verbatim>\<open>/\.pdf$/i\<close>.  Without the unicode flag, case-insensitive matching
  canonicalises a code unit by upper-casing it, and never maps a code unit above 127
  to one below 128; so against the pattern characters \<open>p\<close>, \<open>d\<close>, \<open>f\<close> exactly
  their two ASCII cases match.  \<open>$\<close> (no multiline flag) holds only at the end of the
  input, so a match at some position consumes the four remaining code units.
\<close>

definition ieq :: "jschar \<Rightarrow> char \<Rightarrow> char \<Rightarrow> bool" where
  "ieq c lower upper \<longleftrightarrow> c = of_char lower \<or> c = of_char upper"

fun matchPdfAtEnd :: "jsstring \<Rightarrow> bool" where
  "matchPdfAtEnd [c0, c1, c2, c3] \<longleftrightarrow>
     c0 = of_char CHR ''.'' \<and> ieq c1 CHR ''p'' CHR ''P'' \<and>
     ieq c2 CHR ''d'' CHR ''D'' \<and> ieq c3 CHR ''f'' CHR ''F''"
| "matchPdfAtEnd _ \<longleftrightarrow> False"

text \<open>
  \<^verbatim>\<open>name.replace(/\.pdf$/i, '')\<close>: the start positions are tried from the left; the
  first match is replaced by the empty string, and a string without a match is returned
  as it is.
\<close>

fun replacePdf :: "jsstring \<Rightarrow> jsstring" where
  "replacePdf [] = []"
| "replacePdf (c # cs) = (if matchPdfAtEnd (c # cs) then [] else c # replacePdf cs)"

definition getDefaultMergedName :: "PdfItem list \<Rightarrow> jsstring" where
  "getDefaultMergedName d =
     (case d of
        [] \<Rightarrow> js ''merged.pdf''
      | first # _ \<Rightarrow> replacePdf (name first) @ js ''_merged.pdf'')"

text \<open>
  The words of the specification, to compare with: the name with a trailing
  case-insensitive \<open>.pdf\<close> suffix stripped.
\<close>

definition asciiLower :: "jschar \<Rightarrow> jschar" where
  "asciiLower c = (if 0x41 \<le> c \<and> c \<le> 0x5A then c + 0x20 else c)"

definition spec_stripPdfSuffix :: "jsstring \<Rightarrow> jsstring" where
  "spec_stripPdfSuffix s =
     (if 4 \<le> length s \<and> map asciiLower (drop (length s - 4) s) = js ''.pdf''
      then take (length s - 4) s else s)"

subsection \<open>State updates (lines 60, 72-74, 109, 127, 317)\<close>

text \<open>
  Every \<^verbatim>\<open>setData\<close> in the component installs a fresh array, so the effect of lines
  72-74 runs after it and resets the output name to the default name of the new list.
\<close>

definition setData :: "PdfItem list \<Rightarrow> app \<Rightarrow> app" where
  "setData d s = s\<lparr>data := d, fileName := getDefaultMergedName d\<rparr>"

definition initialApp :: app where
  "initialApp = \<lparr>data = [], fileName = getDefaultMergedName [], merging = False\<rparr>"

text \<open>Lines 133-136: the memoised total, recomputed whenever the list changes.\<close>

definition totalPages :: "PdfItem list \<Rightarrow> nat" where
  "totalPages d = foldl (\<lambda>sum p. sum + pages p) 0 d"

text \<open>
  Lines 120-130: the confirmation dialog; only its destructive button changes the list.
\<close>

datatype removeChoice = RemoveCancel | RemoveConfirm

definition removePdf :: "jsstring \<Rightarrow> removeChoice \<Rightarrow> app \<Rightarrow> app" where
  "removePdf i choice s =
     (case choice of
        RemoveCancel \<Rightarrow> s
      | RemoveConfirm \<Rightarrow> setData (filter (\<lambda>p. itemId p \<noteq> i) (data s)) s)"

text \<open>Line 317: the list handed over by the drag list replaces the current one.\<close>

definition onDragEnd :: "PdfItem list \<Rightarrow> app \<Rightarrow> app" where
  "onDragEnd newData s = setData newData s"

text \<open>Line 109: the items of a loaded batch are appended.\<close>

definition appendItems :: "PdfItem list \<Rightarrow> app \<Rightarrow> app" where
  "appendItems items s = setData (data s @ items) s"

section \<open>The platform\<close>

text \<open>
  What the component reaches outside itself: \<^verbatim>\<open>Platform.OS\<close>, the two directories
  and the files of \<^verbatim>\<open>expo-file-system\<close>, the share sheet, and the wall clock behind
  \<^verbatim>\<open>Date.now()\<close>.  \<open>files\<close> gives, for a URI, what reading it with base64 encoding
  resolves to, or the error the read rejects with; \<open>writeError\<close> and \<open>shareError\<close>
  say which writes and shares reject.  The clock is any sequence of readings: the
  \<open>k\<close>-th call of \<^verbatim>\<open>Date.now()\<close> returns \<open>clock k\<close>.
\<close>

record env =
  OS :: jsstring
  cacheDirectory :: "jsstring option"
  documentDirectory :: "jsstring option"
  files :: "jsstring \<Rightarrow> error + jsstring"
  writeError :: "jsstring \<Rightarrow> error option"
  shareError :: "jsstring \<Rightarrow> error option"
  clock :: "nat \<Rightarrow> nat"
  ticks :: nat

definition Date_now :: "env \<Rightarrow> nat \<times> env" where
  "Date_now e = (clock e (ticks e), e\<lparr>ticks := Suc (ticks e)\<rparr>)"

definition readAsStringAsync :: "env \<Rightarrow> jsstring \<Rightarrow> error + jsstring" where
  "readAsStringAsync e u = files e u"

definition writeAsStringAsync :: "env \<Rightarrow> jsstring \<Rightarrow> jsstring \<Rightarrow> error + env" where
  "writeAsStringAsync e u contents =
     (case writeError e u of
        Some err \<Rightarrow> Inl err
      | None \<Rightarrow> Inr (e\<lparr>files := (files e)(u := Inr contents)\<rparr>))"

definition copyAsync :: "env \<Rightarrow> jsstring \<Rightarrow> jsstring \<Rightarrow> error + env" where
  "copyAsync e from to =
     (case files e from of
        Inl err \<Rightarrow> Inl err
      | Inr contents \<Rightarrow> writeAsStringAsync e to contents)"

text \<open>
  The PDF library (\<^verbatim>\<open>pdf-lib\<close>) is a parameter.  A document is the list of its
  pages, over any type \<open>'p\<close> of page contents; \<open>load\<close> parses bytes or rejects,
  \<open>serialize\<close> writes a document out as bytes, and \<open>blankPage\<close> is the page that
  \<^verbatim>\<open>addPage()\<close> without argument creates.  A new document has no page, the page indices
  are \<open>0, ..., n - 1\<close>, \<^verbatim>\<open>copyPages\<close> yields the pages at the given indices and
  \<^verbatim>\<open>addPage\<close> appends one.
\<close>

record 'p pdflib =
  load :: "bytes \<Rightarrow> error + 'p list"
  serialize :: "'p list \<Rightarrow> bytes"
  blankPage :: 'p

definition getPageCount :: "'p list \<Rightarrow> nat" where
  "getPageCount pdf = length pdf"

definition getPageIndices :: "'p list \<Rightarrow> nat list" where
  "getPageIndices pdf = [0..<length pdf]"

definition copyPages :: "'p list \<Rightarrow> nat list \<Rightarrow> 'p list" where
  "copyPages pdf indices = map (\<lambda>i. pdf ! i) indices"

definition addPage :: "'p list \<Rightarrow> 'p \<Rightarrow> 'p list" where
  "addPage mergedPdf p = mergedPdf @ [p]"

text \<open>
  \<^verbatim>\<open>save()\<close> as line 158 calls it, with the library's default options: under
  \<^verbatim>\<open>addDefaultPage\<close> a document without pages first gets a blank one, then the
  document is serialised.
\<close>

definition addDefaultPage :: "'p pdflib \<Rightarrow> 'p list \<Rightarrow> 'p list" where
  "addDefaultPage lib pdf = (if getPageCount pdf = 0 then addPage pdf (blankPage lib) else pdf)"

definition save :: "'p pdflib \<Rightarrow> 'p list \<Rightarrow> bytes" where
  "save lib pdf = serialize lib (addDefaultPage lib pdf)"

section \<open>Adding documents (lines 35-57, 77-117)\<close>

definition startsWith :: "jsstring \<Rightarrow> jsstring \<Rightarrow> bool" where
  "startsWith s p \<longleftrightarrow> take (length p) s = p"

text \<open>
  Lines 35-57.  An error leaves the platform as the steps before it made it, so the
  platform is returned beside the result.  \<^verbatim>\<open>!cacheDir\<close> holds for a missing and for
  an empty directory name.
\<close>

definition normalizePdfUri :: "env \<Rightarrow> jsstring \<Rightarrow> (error + jsstring) \<times> env" where
  "normalizePdfUri e u =
     (if OS e \<noteq> js ''android'' then (Inr u, e)
      else if \<not> startsWith u (js ''content://'') then (Inr u, e)
      else
        case cacheDirectory e of
          None \<Rightarrow> (Inl CacheDirectoryUnavailable, e)
        | Some cacheDir \<Rightarrow>
            if cacheDir = [] then (Inl CacheDirectoryUnavailable, e)
            else
              let (t, e1) = Date_now e;
                  fileName = js ''tmp_'' @ numberToString t @ js ''.pdf'';
                  dest = cacheDir @ fileName
              in case copyAsync e1 u dest of
                   Inl err \<Rightarrow> (Inl err, e1)
                 | Inr e2 \<Rightarrow> (Inr dest, e2))"

text \<open>What the picker resolves to: cancelled, or the chosen files with their names.\<close>

datatype asset = Asset (assetUri: jsstring) (assetName: "jsstring option")

datatype pickResult = Canceled | Picked "asset list"

text \<open>The alerts the component shows, by the line that shows them.\<close>

datatype alert =
    LoadFailed error
  | TooFewItems
  | PageLimitExceeded nat nat
  | ConfirmMerge jsstring nat nat
  | SaveDone
  | SaveFailed error
  | ShareFailed error
  | ShareUnavailable

text \<open>
  Lines 88-107: the loop over the chosen files, \<open>i\<close> the index of the next one and
  \<open>items\<close> the local array.  The first step that throws ends the loop.
\<close>

fun pickLoop :: "'p pdflib \<Rightarrow> asset list \<Rightarrow> nat \<Rightarrow> PdfItem list \<Rightarrow> env \<Rightarrow> (error + PdfItem list) \<times> env" where
  "pickLoop lib [] i items e = (Inr items, e)"
| "pickLoop lib (file # rest) i items e =
     (case normalizePdfUri e (assetUri file) of
        (Inl err, e1) \<Rightarrow> (Inl err, e1)
      | (Inr safeUri, e1) \<Rightarrow>
          (case readAsStringAsync e1 safeUri of
             Inl err \<Rightarrow> (Inl err, e1)
           | Inr base64 \<Rightarrow>
               (case base64ToUint8Array base64 of
                  Inl err \<Rightarrow> (Inl err, e1)
                | Inr bs \<Rightarrow>
                    (case load lib bs of
                       Inl err \<Rightarrow> (Inl err, e1)
                     | Inr pdf \<Rightarrow>
                         let (t, e2) = Date_now e1
                         in pickLoop lib rest (i + 1)
                              (items @
                               [\<lparr>itemId = numberToString t @ js ''-'' @ numberToString i,
                                 name = (case assetName file of
                                           None \<Rightarrow> js ''unknown.pdf''
                                         | Some n \<Rightarrow> n),
                                 uri = safeUri,
                                 pages = getPageCount pdf\<rparr>])
                              e2))))"

text \<open>
  Lines 77-117.  The new state, the platform afterwards and the alert shown, if any.
\<close>

definition pickPdf :: "'p pdflib \<Rightarrow> pickResult \<Rightarrow> app \<Rightarrow> env \<Rightarrow> app \<times> env \<times> alert option" where
  "pickPdf lib result s e =
     (case result of
        Canceled \<Rightarrow> (s, e, None)
      | Picked assets \<Rightarrow>
          (case pickLoop lib assets 0 [] e of
             (Inr items, e') \<Rightarrow> (appendItems items s, e', None)
           | (Inl err, e') \<Rightarrow> (s, e', Some (LoadFailed err))))"

section \<open>Merging (lines 139-246)\<close>

text \<open>Lines 143-156: the loop over the session's items.\<close>

fun mergeLoop :: "'p pdflib \<Rightarrow> env \<Rightarrow> PdfItem list \<Rightarrow> 'p list \<Rightarrow> error + 'p list" where
  "mergeLoop lib e [] mergedPdf = Inr mergedPdf"
| "mergeLoop lib e (item # rest) mergedPdf =
     (case readAsStringAsync e (uri item) of
        Inl err \<Rightarrow> Inl err
      | Inr base64 \<Rightarrow>
          (case base64ToUint8Array base64 of
             Inl err \<Rightarrow> Inl err
           | Inr bs \<Rightarrow>
               (case load lib bs of
                  Inl err \<Rightarrow> Inl err
                | Inr pdf \<Rightarrow>
                    let copied = copyPages pdf (getPageIndices pdf)
                    in mergeLoop lib e rest (foldl addPage mergedPdf copied))))"

text \<open>
  Lines 139-178.  \<^verbatim>\<open>cacheDirectory ?? documentDirectory\<close> falls back only when the
  first is missing; \<^verbatim>\<open>!dir\<close> also rejects an empty name.  The catch block rethrows.
\<close>

definition buildMergedPdf :: "'p pdflib \<Rightarrow> PdfItem list \<Rightarrow> jsstring \<Rightarrow> env \<Rightarrow> (error + jsstring) \<times> env" where
  "buildMergedPdf lib d finalName e =
     (case mergeLoop lib e d [] of
        Inl err \<Rightarrow> (Inl err, e)
      | Inr mergedPdf \<Rightarrow>
          let mergedBytes = save lib mergedPdf;
              mergedBase64 = uint8ArrayToBase64 mergedBytes;
              dir = (case cacheDirectory e of Some c \<Rightarrow> Some c | None \<Rightarrow> documentDirectory e)
          in case dir of
               None \<Rightarrow> (Inl SaveDirectoryUnavailable, e)
             | Some dr \<Rightarrow>
                 if dr = [] then (Inl SaveDirectoryUnavailable, e)
                 else
                   case writeAsStringAsync e (dr @ finalName) mergedBase64 of
                     Inl err \<Rightarrow> (Inl err, e)
                   | Inr e' \<Rightarrow> (Inr (dr @ finalName), e'))"

text \<open>
  Lines 181-246, up to the dialog: either one of the two refusals, or the confirmation
  dialog with the final name, the number of items and the total.
\<close>

definition onPressMerge :: "app \<Rightarrow> alert" where
  "onPressMerge s =
     (if length (data s) < 2 then TooFewItems
      else if totalPages (data s) > MAX_TOTAL_PAGES then
        PageLimitExceeded (totalPages (data s)) MAX_TOTAL_PAGES
      else
        let finalName = (if trim (fileName s) \<noteq> [] then fileName s
                         else getDefaultMergedName (data s))
        in ConfirmMerge finalName (length (data s)) (totalPages (data s)))"

text \<open>
  The buttons of the confirmation dialog (lines 204-243).  Each outcome is the new
  state, the platform afterwards, what \<open>buildMergedPdf\<close> returned if it ran, and the
  alerts shown after the dialog.
\<close>

datatype mergeButton = MergeCancel | SaveFile | ShareFile

type_synonym outcome = "app \<times> env \<times> (error + jsstring) option \<times> alert list"

definition onPressSave :: "'p pdflib \<Rightarrow> jsstring \<Rightarrow> app \<Rightarrow> env \<Rightarrow> outcome" where
  "onPressSave lib finalName s e =
     (case buildMergedPdf lib (data s) finalName e of
        (Inr u, e') \<Rightarrow> (s\<lparr>merging := False\<rparr>, e', Some (Inr u), [SaveDone])
      | (Inl err, e') \<Rightarrow> (s\<lparr>merging := False\<rparr>, e', Some (Inl err), [SaveFailed err]))"

definition onPressShare :: "'p pdflib \<Rightarrow> jsstring \<Rightarrow> app \<Rightarrow> env \<Rightarrow> outcome" where
  "onPressShare lib finalName s e =
     (case buildMergedPdf lib (data s) finalName e of
        (Inr u, e') \<Rightarrow>
          if OS e' \<noteq> js ''web'' then
            (case shareError e' u of
               None \<Rightarrow> (s\<lparr>merging := False\<rparr>, e', Some (Inr u), [])
             | Some err \<Rightarrow> (s\<lparr>merging := False\<rparr>, e', Some (Inr u), [ShareFailed err]))
          else (s\<lparr>merging := False\<rparr>, e', Some (Inr u), [ShareUnavailable])
      | (Inl err, e') \<Rightarrow> (s\<lparr>merging := False\<rparr>, e', Some (Inl err), [ShareFailed err]))"

text \<open>
  Pressing the merge button and then, where the confirmation dialog appears, one of its
  buttons.
\<close>

definition commitMerge :: "'p pdflib \<Rightarrow> mergeButton \<Rightarrow> app \<Rightarrow> env \<Rightarrow> alert \<times> outcome" where
  "commitMerge lib button s e =
     (case onPressMerge s of
        ConfirmMerge finalName n tot \<Rightarrow>
          (ConfirmMerge finalName n tot,
           case button of
             MergeCancel \<Rightarrow> (s, e, None, [])
           | SaveFile \<Rightarrow> onPressSave lib finalName s e
           | ShareFile \<Rightarrow> onPressShare lib finalName s e)
      | refusal \<Rightarrow> (refusal, (s, e, None, [])))"


section \<open>Auxiliary notions for the proofs\<close>

text \<open>
  Three bytes packed into 24 bits and two into 16, the encoding of whole triples and of
  the one or two bytes left over, and the shape of an encoder output: characters of the
  alphabet followed by the padding its length asks for.
\<close>

definition pack :: "8 word \<Rightarrow> 8 word \<Rightarrow> 8 word \<Rightarrow> 32 word" where
  "pack a b c = push_bit 16 (ucast a) OR push_bit 8 (ucast b) OR ucast c"

definition pack2 :: "8 word \<Rightarrow> 8 word \<Rightarrow> 32 word" where
  "pack2 a b = push_bit 8 (ucast a) OR ucast b"

fun encTriples :: "bytes \<Rightarrow> jsstring" where
  "encTriples (a # b # c # rest) = tripletToBase64 (pack a b c) @ encTriples rest"
| "encTriples _ = []"

fun encTail :: "bytes \<Rightarrow> jsstring" where
  "encTail [a] =
     lookup (signed_drop_bit 2 (ucast a)) @ lookup (push_bit 4 (ucast a) AND 0x3F) @ js ''==''"
| "encTail [a, b] =
     lookup (signed_drop_bit 10 (push_bit 8 (ucast a) + ucast b)) @
     lookup (signed_drop_bit 4 (push_bit 8 (ucast a) + ucast b) AND 0x3F) @
     lookup (push_bit 2 (push_bit 8 (ucast a) + ucast b) AND 0x3F) @ js ''=''"
| "encTail _ = []"

definition wellPadded :: "jsstring \<Rightarrow> jsstring \<Rightarrow> bool" where
  "wellPadded body pad \<longleftrightarrow>
     set body \<subseteq> set code \<and>
     (pad = [] \<and> length body mod 4 = 0 \<or>
      pad = [eqSign, eqSign] \<and> length body mod 4 = 2 \<or>
      pad = [eqSign] \<and> length body mod 4 = 3)"

text \<open>
  The document behind a URI, as both loops obtain it (lines 94-99 and 144-149): read,
  decode, parse.  The document behind a session item is the one behind its URI.
\<close>

definition documentAt :: "'p pdflib \<Rightarrow> env \<Rightarrow> jsstring \<Rightarrow> error + 'p list" where
  "documentAt lib e u =
     (case readAsStringAsync e u of
        Inl err \<Rightarrow> Inl err
      | Inr base64 \<Rightarrow>
          (case base64ToUint8Array base64 of
             Inl err \<Rightarrow> Inl err
           | Inr bs \<Rightarrow> load lib bs))"

definition sourceDocument :: "'p pdflib \<Rightarrow> env \<Rightarrow> PdfItem \<Rightarrow> error + 'p list" where
  "sourceDocument lib e item = documentAt lib e (uri item)"

text \<open>
  One chosen file as the loop of \<^verbatim>\<open>pickPdf\<close> loads it (lines 92-99): the URI is
  normalised, the contents behind the normalised URI are read, decoded and parsed.  The
  file loads with the URI to keep and the document, or fails with the error thrown;
  beside the result stands the platform as the step leaves it.
\<close>

definition loadFile :: "'p pdflib \<Rightarrow> env \<Rightarrow> asset \<Rightarrow> (error + jsstring \<times> 'p list) \<times> env" where
  "loadFile lib e file =
     (case normalizePdfUri e (assetUri file) of
        (Inl err, e1) \<Rightarrow> (Inl err, e1)
      | (Inr safeUri, e1) \<Rightarrow>
          (case documentAt lib e1 safeUri of
             Inl err \<Rightarrow> (Inl err, e1)
           | Inr pdf \<Rightarrow> (Inr (safeUri, pdf), e1)))"

text \<open>
  The platform after the given files have loaded one after the other, each followed by
  the clock reading of line 102; \<open>None\<close> if one of them fails.
\<close>

fun afterLoading :: "'p pdflib \<Rightarrow> env \<Rightarrow> asset list \<Rightarrow> env option" where
  "afterLoading lib e [] = Some e"
| "afterLoading lib e (file # rest) =
     (case loadFile lib e file of
        (Inl err, e1) \<Rightarrow> None
      | (Inr r, e1) \<Rightarrow> afterLoading lib (snd (Date_now e1)) rest)"

text \<open>The display name of a chosen file (line 103).\<close>

definition displayName :: "asset \<Rightarrow> jsstring" where
  "displayName file = (case assetName file of None \<Rightarrow> js ''unknown.pdf'' | Some n \<Rightarrow> n)"

text \<open>
  A batch whose URIs the platform leaves as they are: off Android, or without
  \<^verbatim>\<open>content://\<close> URIs.
\<close>

definition plainUris :: "env \<Rightarrow> asset list \<Rightarrow> bool" where
  "plainUris e assets \<longleftrightarrow>
     OS e \<noteq> js ''android'' \<or> (\<forall>file\<in>set assets. \<not> startsWith (assetUri file) (js ''content://''))"

section \<open>Example inputs\<close>

text \<open>
  Concrete sessions and a concrete platform to evaluate the operations on: a toy PDF
  library whose documents have one page per byte and which rejects the empty buffer, and
  a platform with three files, of three pages, of two pages and unreadable as a
  document, whose clock stands still.
\<close>

definition exampleItem :: "string \<Rightarrow> string \<Rightarrow> nat \<Rightarrow> PdfItem" where
  "exampleItem i n p = \<lparr>itemId = js i, name = js n, uri = js ''file:///'' @ js n, pages = p\<rparr>"

definition exampleLib :: "8 word pdflib" where
  "exampleLib =
     \<lparr>load = (\<lambda>bs. if bs = [] then Inl (PdfError (js ''No PDF header found'')) else Inr bs),
      serialize = (\<lambda>ps. ps),
      blankPage = 0x20\<rparr>"

definition exampleEnv :: env where
  "exampleEnv =
     \<lparr>OS = js ''ios'',
      cacheDirectory = Some (js ''file:///cache/''),
      documentDirectory = None,
      files = (\<lambda>u. if u = js ''file:///a.pdf'' then Inr (js ''QUJD'')
                   else if u = js ''file:///b.pdf'' then Inr (js ''QUI='')
                   else if u = js ''file:///bad.pdf'' then Inr (js ''!'')
                   else Inl (FileSystemError (js ''not readable''))),
      writeError = (\<lambda>u. None),
      shareError = (\<lambda>u. None),
      clock = (\<lambda>k. 1700000000000),
      ticks = 0\<rparr>"

text \<open>
  A second toy library, whose files are the byte \<open>0x25\<close> followed by one byte per page,
  so that a document may have no page at all, and a platform with two such empty
  documents, one of ten pages and one of five.  On it, the session after adding the two
  empty documents in one batch, and the sessions after adding the document of ten pages
  and then, in a second batch, the one of five.
\<close>

definition headerLib :: "8 word pdflib" where
  "headerLib =
     \<lparr>load = (\<lambda>bs. case bs of
                     [] \<Rightarrow> Inl (PdfError (js ''No PDF header found''))
                   | h # ps \<Rightarrow> if h = 0x25 then Inr ps
                              else Inl (PdfError (js ''No PDF header found''))),
      serialize = (\<lambda>ps. 0x25 # ps),
      blankPage = 0x20\<rparr>"

definition headerEnv :: env where
  "headerEnv =
     exampleEnv
       \<lparr>files := (\<lambda>u. if u = js ''file:///empty1.pdf'' then Inr (js ''JQ=='')
                      else if u = js ''file:///empty2.pdf'' then Inr (js ''JQ=='')
                      else if u = js ''file:///ten.pdf'' then Inr (js ''JUFCQ0RFRkdISUo='')
                      else if u = js ''file:///five.pdf'' then Inr (js ''JUFCQ0RF'')
                      else Inl (FileSystemError (js ''not readable'')))\<rparr>"

definition emptyPick :: "app \<times> env \<times> alert option" where
  "emptyPick =
     pickPdf headerLib
       (Picked [Asset (js ''file:///empty1.pdf'') (Some (js ''empty1.pdf'')),
                Asset (js ''file:///empty2.pdf'') (Some (js ''empty2.pdf''))])
       initialApp headerEnv"

definition tenPick :: "app \<times> env \<times> alert option" where
  "tenPick =
     pickPdf headerLib (Picked [Asset (js ''file:///ten.pdf'') (Some (js ''ten.pdf''))])
       initialApp headerEnv"

definition fivePick :: "app \<times> env \<times> alert option" where
  "fivePick =
     pickPdf headerLib (Picked [Asset (js ''file:///five.pdf'') (Some (js ''five.pdf''))])
       (fst tenPick) (fst (snd tenPick))"

text \<open>
  An Android platform whose picker hands out \<^verbatim>\<open>content://\<close> URIs, of a document of
  three pages and of one of two pages, for the first toy library; its clock stands still
  as well.  On it, the session after adding the two documents in one batch.
\<close>

definition androidEnv :: env where
  "androidEnv =
     exampleEnv
       \<lparr>OS := js ''android'',
        files := (\<lambda>u. if u = js ''content://docs/1'' then Inr (js ''QUJD'')
                      else if u = js ''content://docs/2'' then Inr (js ''QUI='')
                      else Inl (FileSystemError (js ''not readable'')))\<rparr>"

definition androidPick :: "app \<times> env \<times> alert option" where
  "androidPick =
     pickPdf exampleLib
       (Picked [Asset (js ''content://docs/1'') (Some (js ''one.pdf'')),
                Asset (js ''content://docs/2'') (Some (js ''two.pdf''))])
       initialApp androidEnv"

section \<open>Properties\<close>

subsection \<open>The base64 codec\<close>


lemma length_code: "length code = 64"
  by (simp add: code_def js_def)

lemma distinct_code: "distinct code"
  by (simp add: code_def js_def)

lemma code_props: "list_all (\<lambda>c. isBase64Char c \<and> c \<noteq> eqSign \<and> \<not> isWhiteSpace c \<and> c \<noteq> of_char CHR ''-'' \<and> c \<noteq> of_char CHR ''_'') code"
  by (simp add: code_def js_def isBase64Char_def eqSign_def isWhiteSpace_def)

lemma fold_update_nth:
  assumes "distinct xs" "n \<le> length xs" "i < n"
  shows "fold (\<lambda>i m. m(xs ! i \<mapsto> f i)) [0..<n] m0 (xs ! i) = Some (f i)"
  using assms(2,3)
proof (induction n)
  case 0
  then show ?case by simp
next
  case (Suc n)
  show ?case
  proof (cases "i = n")
    case True
    then show ?thesis by simp
  next
    case False
    with Suc.prems have "i < n" "n < length xs" by simp_all
    moreover from this assms(1) have "xs ! i \<noteq> xs ! n"
      by (simp add: nth_eq_iff_index_eq)
    ultimately show ?thesis using Suc.IH by simp
  qed
qed

lemma revLookup_code: "i < 64 \<Longrightarrow> revLookup (code ! i) = Some (of_nat i)"
proof -
  assume i: "i < 64"
  then have "code ! i \<in> set code" by (simp add: length_code)
  with code_props have "code ! i \<noteq> of_char CHR ''-''" "code ! i \<noteq> of_char CHR ''_''"
    by (auto simp: list_all_iff)
  then show ?thesis
    using fold_update_nth[OF distinct_code order_refl, of i of_nat Map.empty] i
    by (simp add: revLookup_def length_code)
qed

lemma m6: "(0x3F::32 word) = mask 6" by (simp add: mask_eq_exp_minus_1)
lemma m8: "(0xFF::32 word) = mask 8" by (simp add: mask_eq_exp_minus_1)
lemma m16: "(0xFF00::32 word) = push_bit 8 (mask 8)" by (simp add: mask_eq_exp_minus_1)
lemma m24: "(0xFF0000::32 word) = push_bit 16 (mask 8)" by (simp add: mask_eq_exp_minus_1)

lemma bit8: "bit (a :: 8 word) n \<Longrightarrow> n < 8"
  by (auto dest: bit_imp_le_length)

lemma tmp_pack:
  fixes a b c :: "8 word"
  shows "(push_bit 16 (ucast a :: 32 word) AND 0xFF0000) + (push_bit 8 (ucast b) AND 0xFF00) + (ucast c AND 0xFF) = pack a b c"
proof -
  have 1: "(push_bit 16 (ucast a :: 32 word) AND 0xFF0000) = push_bit 16 (ucast a)"
    unfolding m24 by (rule bit_eqI) (auto simp: bit_simps dest: bit8)
  have 2: "(push_bit 8 (ucast b :: 32 word) AND 0xFF00) = push_bit 8 (ucast b)"
    unfolding m16 by (rule bit_eqI) (auto simp: bit_simps dest: bit8)
  have 3: "((ucast c :: 32 word) AND 0xFF) = ucast c"
    unfolding m8 by (rule bit_eqI) (auto simp: bit_simps dest: bit8)
  have 4: "push_bit 16 (ucast a :: 32 word) + push_bit 8 (ucast b) = push_bit 16 (ucast a) OR push_bit 8 (ucast b)"
    by (rule disjunctive_add) (auto simp: bit_simps dest: bit8)
  have 5: "(push_bit 16 (ucast a :: 32 word) OR push_bit 8 (ucast b)) + ucast c = (push_bit 16 (ucast a) OR push_bit 8 (ucast b)) OR ucast c"
    by (rule disjunctive_add) (auto simp: bit_simps dest: bit8)
  show ?thesis unfolding 1 2 3 4 5 pack_def by (simp add: or.assoc)
qed

lemma drop_3:
  assumes "i + 3 \<le> length u"
  shows "drop i u = u ! i # u ! (i + 1) # u ! (i + 2) # drop (i + 3) u"
proof -
  have 1: "drop i u = u ! i # drop (Suc i) u"
    using assms by (simp add: Cons_nth_drop_Suc)
  have 2: "drop (Suc i) u = u ! Suc i # drop (Suc (Suc i)) u"
    using assms by (simp add: Cons_nth_drop_Suc)
  have 3: "drop (Suc (Suc i)) u = u ! Suc (Suc i) # drop (Suc (Suc (Suc i))) u"
    using assms by (simp add: Cons_nth_drop_Suc)
  have 4: "i + 3 = Suc (Suc (Suc i))" "i + 2 = Suc (Suc i)" "i + 1 = Suc i"
    by simp_all
  show ?thesis unfolding 4 using 1 2 3 by simp
qed

lemma take_drop_3:
  assumes "i + 3 \<le> e" "e \<le> length u"
  shows "take (e - i) (drop i u) = u ! i # u ! (i + 1) # u ! (i + 2) # take (e - (i + 3)) (drop (i + 3) u)"
proof -
  have d: "drop i u = u ! i # u ! (i + 1) # u ! (i + 2) # drop (i + 3) u"
    using assms by (intro drop_3) simp
  have "e - i = Suc (Suc (Suc (e - (i + 3))))"
    using assms by simp
  then show ?thesis by (simp add: d)
qed

lemma encodeChunkLoop_eq:
  "i \<le> e \<Longrightarrow> (e - i) mod 3 = 0 \<Longrightarrow> e \<le> length u \<Longrightarrow>
   concat (encodeChunkLoop u i e out) = concat out @ encTriples (take (e - i) (drop i u))"
proof (induction u i e out rule: encodeChunkLoop.induct)
  case (1 uint8 i e out)
  show ?case
  proof (cases "i < e")
    case False
    with "1.prems" have "e = i" by simp
    then show ?thesis by (subst encodeChunkLoop.simps) simp
  next
    case True
    with "1.prems" have "e - i \<noteq> 0" "(e - i) mod 3 = 0" by simp_all
    then have "3 \<le> e - i" by presburger
    with True have le3: "i + 3 \<le> e" by simp
    have m: "(e - (i + 3)) mod 3 = 0"
      using le3 "1.prems"(2) by presburger
    have b: "byteAt uint8 i = ucast (uint8 ! i)" "byteAt uint8 (i + 1) = ucast (uint8 ! (i + 1))"
      "byteAt uint8 (i + 2) = ucast (uint8 ! (i + 2))"
      using le3 "1.prems"(3) by (simp_all add: byteAt_def)
    have t: "(push_bit 16 (byteAt uint8 i) AND 0xFF0000) + (push_bit 8 (byteAt uint8 (i + 1)) AND 0xFF00) +
             (byteAt uint8 (i + 2) AND 0xFF) = pack (uint8 ! i) (uint8 ! (i + 1)) (uint8 ! (i + 2))"
      by (simp only: b tmp_pack)
    have "encodeChunkLoop uint8 i e out =
          encodeChunkLoop uint8 (i + 3) e
            (out @ [tripletToBase64 (pack (uint8 ! i) (uint8 ! (i + 1)) (uint8 ! (i + 2)))])"
      by (subst encodeChunkLoop.simps) (simp only: t Let_def True if_True)
    also have "concat \<dots> = concat (out @ [tripletToBase64 (pack (uint8 ! i) (uint8 ! (i + 1)) (uint8 ! (i + 2)))])
           @ encTriples (take (e - (i + 3)) (drop (i + 3) uint8))"
      using "1.IH"[OF True refl le3 m "1.prems"(3)] by (simp only: t)
    finally have "concat (encodeChunkLoop uint8 i e out) =
       concat (out @ [tripletToBase64 (pack (uint8 ! i) (uint8 ! (i + 1)) (uint8 ! (i + 2)))])
           @ encTriples (take (e - (i + 3)) (drop (i + 3) uint8))" .
    also have "\<dots> = concat out @ encTriples (take (e - i) (drop i uint8))"
      by (simp add: take_drop_3[OF le3 "1.prems"(3)])
    finally show ?thesis .
  qed
qed

lemma encTriples_append:
  "length xs mod 3 = 0 \<Longrightarrow> encTriples (xs @ ys) = encTriples xs @ encTriples ys"
proof (induction xs rule: encTriples.induct)
  case (1 a b c rest)
  then have "length rest mod 3 = 0" by simp
  with 1 show ?case by simp
qed simp_all

lemma encodeChunk_eq:
  "i \<le> e \<Longrightarrow> (e - i) mod 3 = 0 \<Longrightarrow> e \<le> length u \<Longrightarrow>
   encodeChunk u i e = encTriples (take (e - i) (drop i u))"
  by (simp add: encodeChunk_def encodeChunkLoop_eq)

lemma take_drop_split:
  "m \<le> n \<Longrightarrow> take n xs = take m xs @ take (n - m) (drop m xs)"
  by (metis le_add_diff_inverse take_add)

lemma chunksLoop_eq:
  "i \<le> len2 \<Longrightarrow> i mod 3 = 0 \<Longrightarrow> len2 mod 3 = 0 \<Longrightarrow> len2 \<le> length u \<Longrightarrow>
   concat (chunksLoop u i len2 parts) = concat parts @ encTriples (take (len2 - i) (drop i u))"
proof (induction u i len2 parts rule: chunksLoop.induct)
  case (1 uint8 i len2 parts)
  show ?case
  proof (cases "i < len2")
    case False
    with "1.prems" have "len2 = i" by simp
    then show ?thesis by (subst chunksLoop.simps) simp
  next
    case True
    show ?thesis
    proof (cases "i + maxChunkLength > len2")
      case over: True
      have c: "encodeChunk uint8 i len2 = encTriples (take (len2 - i) (drop i uint8))"
        using "1.prems" by (intro encodeChunk_eq) (simp, presburger, simp)
      have "chunksLoop uint8 i len2 parts = chunksLoop uint8 (i + maxChunkLength) len2 (parts @ [encodeChunk uint8 i len2])"
        by (subst chunksLoop.simps) (simp only: True over if_True)
      also have "\<dots> = parts @ [encodeChunk uint8 i len2]"
        using over by (subst chunksLoop.simps) simp
      finally show ?thesis by (simp add: c)
    next
      case under: False
      let ?e = "i + maxChunkLength"
      have e: "?e \<le> len2" using under by simp
      have m3: "maxChunkLength mod 3 = 0" by (simp add: maxChunkLength_def)
      have c: "encodeChunk uint8 i ?e = encTriples (take maxChunkLength (drop i uint8))"
        using encodeChunk_eq[of i ?e uint8] e "1.prems"(4) m3 by simp
      have l: "length (take maxChunkLength (drop i uint8)) mod 3 = 0"
        using e "1.prems"(4) m3 by (simp add: min_absorb2)
      have "chunksLoop uint8 i len2 parts = chunksLoop uint8 ?e len2 (parts @ [encodeChunk uint8 i ?e])"
        by (subst chunksLoop.simps) (simp only: True under if_True if_False)
      also have "concat \<dots> = concat (parts @ [encodeChunk uint8 i ?e]) @ encTriples (take (len2 - ?e) (drop ?e uint8))"
      proof -
        have "(i + maxChunkLength) mod 3 = 0"
          using "1.prems"(2) m3 by presburger
        then show ?thesis
          using "1.IH"[OF True e _ "1.prems"(3,4)] under by simp
      qed
      finally have "concat (chunksLoop uint8 i len2 parts) =
        concat parts @ encTriples (take maxChunkLength (drop i uint8)) @ encTriples (take (len2 - ?e) (drop ?e uint8))"
        by (simp add: c)
      also have "encTriples (take maxChunkLength (drop i uint8)) @ encTriples (take (len2 - ?e) (drop ?e uint8))
        = encTriples (take maxChunkLength (drop i uint8) @ take (len2 - ?e) (drop ?e uint8))"
        using l by (simp add: encTriples_append)
      also have "take maxChunkLength (drop i uint8) @ take (len2 - ?e) (drop ?e uint8) = take (len2 - i) (drop i uint8)"
        using take_drop_split[of maxChunkLength "len2 - i" "drop i uint8"] e
        by (simp add: add.commute)
      finally show ?thesis .
    qed
  qed
qed

lemma sext_lt: "unat (y AND 0x3F :: 32 word) < 64"
proof -
  have "unat (take_bit 6 y) < 2 ^ 6"
    using take_bit_nat_less_exp[of 6 "unat y"] by (simp add: unsigned_take_bit_eq)
  then show ?thesis unfolding m6 by (simp add: take_bit_eq_mask)
qed

lemma lookup_sext: "lookup (y AND 0x3F) = [code ! unat (y AND 0x3F)]"
  by (simp add: lookup_def sext_lt length_code)

lemma revLookup_sext: "revLookup (code ! unat (y AND 0x3F)) = Some (y AND 0x3F)"
  using revLookup_code[OF sext_lt, of y] by simp

lemma tripletToBase64_eq:
  "tripletToBase64 x =
     [code ! unat (signed_drop_bit 18 x AND 0x3F), code ! unat (signed_drop_bit 12 x AND 0x3F),
      code ! unat (signed_drop_bit 6 x AND 0x3F), code ! unat (x AND 0x3F)]"
  by (simp add: tripletToBase64_def lookup_sext)

lemma length_tripletToBase64: "length (tripletToBase64 x) = 4"
  by (simp add: tripletToBase64_eq)

lemma bit_pack: "bit (pack a b c) n \<longleftrightarrow> (16 \<le> n \<and> bit a (n - 16)) \<or> (8 \<le> n \<and> bit b (n - 8)) \<or> bit c n"
  unfolding pack_def by (auto simp: bit_simps dest: bit8)

lemma byte1: "ucast (signed_drop_bit 16 (pack a b c) AND 0xFF) = a"
  unfolding m8 by (rule bit_eqI) (auto simp: bit_simps bit_pack dest: bit8)

lemma byte2: "ucast (signed_drop_bit 8 (pack a b c) AND 0xFF) = b"
  unfolding m8 by (rule bit_eqI) (auto simp: bit_simps bit_pack dest: bit8)

lemma byte3: "ucast ((pack a b c) AND 0xFF) = c"
  unfolding m8 by (rule bit_eqI) (auto simp: bit_simps bit_pack dest: bit8)

lemma sdb: "m + n < 31 \<Longrightarrow> bit (signed_drop_bit m (x :: 32 word)) n \<longleftrightarrow> bit x (m + n)"
  by (auto simp: bit_signed_drop_bit_iff)

lemma requad:
  fixes x :: "32 word"
  assumes lt: "\<And>n. bit x n \<Longrightarrow> n < 24"
  shows "push_bit 18 (signed_drop_bit 18 x AND 0x3F) OR push_bit 12 (signed_drop_bit 12 x AND 0x3F) OR
         push_bit 6 (signed_drop_bit 6 x AND 0x3F) OR (x AND 0x3F) = x"
proof (rule bit_eqI)
  fix n
  assume "possible_bit TYPE(32 word) n"
  consider "n < 6" | "6 \<le> n" "n < 12" | "12 \<le> n" "n < 18" | "18 \<le> n" "n < 24" | "24 \<le> n"
    by linarith
  then show "bit (push_bit 18 (signed_drop_bit 18 x AND 0x3F) OR push_bit 12 (signed_drop_bit 12 x AND 0x3F) OR
                  push_bit 6 (signed_drop_bit 6 x AND 0x3F) OR (x AND 0x3F)) n = bit x n"
  proof cases
    case 1
    then show ?thesis unfolding m6 by (auto simp: bit_simps)
  next
    case 2
    then show ?thesis unfolding m6 by (auto simp: bit_simps sdb)
  next
    case 3
    then show ?thesis unfolding m6 by (auto simp: bit_simps sdb)
  next
    case 4
    then show ?thesis unfolding m6 by (auto simp: bit_simps sdb)
  next
    case 5
    then have "\<not> bit x n" using lt[of n] by auto
    with 5 show ?thesis unfolding m6 by (auto simp: bit_simps sdb)
  qed
qed

lemma requad_pack:
  "push_bit 18 (signed_drop_bit 18 (pack a b c) AND 0x3F) OR
   push_bit 12 (signed_drop_bit 12 (pack a b c) AND 0x3F) OR
   push_bit 6 (signed_drop_bit 6 (pack a b c) AND 0x3F) OR (pack a b c AND 0x3F) = pack a b c"
  by (rule requad) (auto simp: bit_pack dest: bit8)

lemma revLookupAt_append:
  "revLookupAt (P @ Q @ R) (length P + j) = (if j < length Q then revLookupAt Q j else revLookupAt R (j - length Q))"
  by (auto simp: revLookupAt_def nth_append)

lemma decodeLoop_step:
  assumes "i = length P" "i < len"
  shows "decodeLoop (P @ tripletToBase64 (pack a b c) @ R) len i arr cur =
         decodeLoop (P @ tripletToBase64 (pack a b c) @ R) len (i + 4) (arr[cur := a, cur + 1 := b, cur + 2 := c]) (cur + 3)"
proof -
  let ?b64 = "P @ tripletToBase64 (pack a b c) @ R"
  let ?x = "pack a b c"
  have r: "revLookupAt ?b64 i = signed_drop_bit 18 ?x AND 0x3F"
    "revLookupAt ?b64 (i + 1) = signed_drop_bit 12 ?x AND 0x3F"
    "revLookupAt ?b64 (i + 2) = signed_drop_bit 6 ?x AND 0x3F"
    "revLookupAt ?b64 (i + 3) = ?x AND 0x3F"
    unfolding assms(1)
    using revLookupAt_append[of P "tripletToBase64 ?x" R 0]
      revLookupAt_append[of P "tripletToBase64 ?x" R 1]
      revLookupAt_append[of P "tripletToBase64 ?x" R 2]
      revLookupAt_append[of P "tripletToBase64 ?x" R 3]
    by (simp_all add: length_tripletToBase64) (simp_all add: tripletToBase64_eq revLookupAt_def revLookup_sext)
  show ?thesis
    by (subst decodeLoop.simps) (simp only: assms(2) if_True r requad_pack byte1 byte2 byte3 Let_def)
qed

lemma upd3:
  assumes "cur + 3 \<le> length arr"
  shows "arr[cur := a, cur + 1 := b, cur + 2 := c] = take cur arr @ [a, b, c] @ drop (cur + 3) arr"
proof (rule nth_equalityI)
  show "length (arr[cur := a, cur + 1 := b, cur + 2 := c]) = length (take cur arr @ [a, b, c] @ drop (cur + 3) arr)"
    using assms by simp
next
  fix i
  assume "i < length (arr[cur := a, cur + 1 := b, cur + 2 := c])"
  then have i: "i < length arr" by simp
  consider "i < cur" | "i = cur" | "i = cur + 1" | "i = cur + 2" | "cur + 3 \<le> i" by linarith
  then show "arr[cur := a, cur + 1 := b, cur + 2 := c] ! i = (take cur arr @ [a, b, c] @ drop (cur + 3) arr) ! i"
  proof cases
    case 1
    then show ?thesis using i assms by (simp add: nth_append)
  next
    case 2
    then show ?thesis using i assms by (simp add: nth_append)
  next
    case 3
    then show ?thesis using i assms by (simp add: nth_append)
  next
    case 4
    then show ?thesis using i assms by (simp add: nth_append)
  next
    case 5
    then obtain d where d: "i = cur + 3 + d" using le_Suc_ex by blast
    show ?thesis unfolding d using i assms d by (simp add: nth_append)
  qed
qed

lemma decodeLoop_encTriples:
  "length ts mod 3 = 0 \<Longrightarrow> i = length P \<Longrightarrow> len \<le> i + 4 * (length ts div 3) \<Longrightarrow>
   i + 4 * (length ts div 3) < len + 4 \<Longrightarrow> cur + length ts \<le> length arr \<Longrightarrow>
   decodeLoop (P @ encTriples ts @ R) len i arr cur =
     (i + 4 * (length ts div 3), take cur arr @ ts @ drop (cur + length ts) arr, cur + length ts)"
proof (induction ts arbitrary: P i arr cur rule: encTriples.induct)
  case (1 a b c rest)
  let ?t = "tripletToBase64 (pack a b c)"
  let ?arr = "arr[cur := a, cur + 1 := b, cur + 2 := c]"
  have k: "length (a # b # c # rest) div 3 = Suc (length rest div 3)" by simp
  have m: "length rest mod 3 = 0" using "1.prems"(1) by simp
  have lt: "i < len" using "1.prems"(4) unfolding k by simp
  have cur3: "cur + 3 \<le> length arr" using "1.prems"(5) by simp
  have "decodeLoop (P @ encTriples (a # b # c # rest) @ R) len i arr cur =
        decodeLoop (P @ ?t @ (encTriples rest @ R)) len i arr cur"
    by simp
  also have "\<dots> = decodeLoop (P @ ?t @ (encTriples rest @ R)) len (i + 4) ?arr (cur + 3)"
    using "1.prems"(2) lt by (rule decodeLoop_step)
  also have "\<dots> = decodeLoop ((P @ ?t) @ encTriples rest @ R) len (i + 4) ?arr (cur + 3)"
    by simp
  also have "\<dots> = (i + 4 + 4 * (length rest div 3),
        take (cur + 3) ?arr @ rest @ drop (cur + 3 + length rest) ?arr, cur + 3 + length rest)"
    using "1.prems" unfolding k
    by (intro "1.IH" m) (simp_all add: length_tripletToBase64)
  also have "take (cur + 3) ?arr = take cur arr @ [a, b, c]"
    using cur3 by (simp only: upd3) simp
  also have "drop (cur + 3 + length rest) ?arr = drop (cur + 3 + length rest) arr"
    by simp
  finally have e: "decodeLoop (P @ encTriples (a # b # c # rest) @ R) len i arr cur =
      (i + 4 + 4 * (length rest div 3),
       (take cur arr @ [a, b, c]) @ rest @ drop (cur + 3 + length rest) arr, cur + 3 + length rest)" .
  have a1: "cur + length (a # b # c # rest) = cur + 3 + length rest"
    by simp
  have a2: "i + 4 * Suc (length rest div 3) = i + 4 + 4 * (length rest div 3)"
    by simp
  show ?case unfolding k a1 a2 e by simp
next
  case "2_1"
  then show ?case by (subst decodeLoop.simps) simp
qed simp_all

lemma drop_last1: "length bs mod 3 = 1 \<Longrightarrow> drop (length bs - 1) bs = [bs ! (length bs - 1)]"
proof -
  assume "length bs mod 3 = 1"
  then have "0 < length bs" by (cases bs) simp_all
  then have "length bs - 1 < length bs" by simp
  from Cons_nth_drop_Suc[OF this] \<open>0 < length bs\<close> show ?thesis by simp
qed

lemma drop_last2:
  "length bs mod 3 = 2 \<Longrightarrow> drop (length bs - 2) bs = [bs ! (length bs - 2), bs ! (length bs - 1)]"
proof -
  assume a: "length bs mod 3 = 2"
  have "2 \<le> length bs"
  proof (rule ccontr)
    assume "\<not> 2 \<le> length bs"
    then have "length bs = 0 \<or> length bs = 1" by linarith
    with a show False by auto
  qed
  then obtain n where n: "length bs = n + 2" using le_Suc_ex by (metis add.commute)
  have "drop n bs = bs ! n # drop (Suc n) bs"
    using n by (simp add: Cons_nth_drop_Suc)
  moreover have "drop (Suc n) bs = bs ! Suc n # drop (Suc (Suc n)) bs"
    using n Cons_nth_drop_Suc[of "Suc n" bs] by simp
  ultimately show ?thesis using n by simp
qed

lemma fromByteArray_eq:
  "fromByteArray bs =
     encTriples (take (length bs - length bs mod 3) bs) @ encTail (drop (length bs - length bs mod 3) bs)"
proof -
  let ?len = "length bs"
  let ?r = "?len mod 3"
  have "(?len - ?r) mod 3 = 0"
    by (simp add: minus_mod_eq_mult_div)
  then have c: "concat (chunksLoop bs 0 (?len - ?r) []) = encTriples (take (?len - ?r) bs)"
    using chunksLoop_eq[of 0 "?len - ?r" bs "[]"] by simp
  consider "?r = 0" | "?r = 1" | "?r = 2" by linarith
  then show ?thesis
  proof cases
    case 1
    then show ?thesis using c by (simp add: fromByteArray_def)
  next
    case 2
    then have "0 < ?len" by (cases bs) simp_all
    then have b: "byteAt bs (?len - 1) = ucast (bs ! (?len - 1))"
      by (simp add: byteAt_def)
    show ?thesis using c 2 drop_last1[OF 2] b
      by (simp add: fromByteArray_def Let_def)
  next
    case 3
    have "2 \<le> ?len"
    proof (rule ccontr)
      assume "\<not> 2 \<le> ?len"
      then have "?len = 0 \<or> ?len = 1" by linarith
      with 3 show False by auto
    qed
    then have "?len - 2 < ?len" "?len - 1 < ?len" by linarith+
    then have b: "byteAt bs (?len - 2) = ucast (bs ! (?len - 2))" "byteAt bs (?len - 1) = ucast (bs ! (?len - 1))"
      by (simp_all add: byteAt_def)
    show ?thesis using c 3 drop_last2[OF 3] b
      by (simp add: fromByteArray_def Let_def)
  qed
qed

lemma t1: "signed_drop_bit 2 (ucast (a :: 8 word) :: 32 word) AND 0x3F = signed_drop_bit 2 (ucast a)"
  unfolding m6 by (rule bit_eqI) (auto simp: bit_simps dest: bit8)

lemma tail1:
  "ucast ((push_bit 2 (signed_drop_bit 2 (ucast a :: 32 word) AND 0x3F) OR
           signed_drop_bit 4 (push_bit 4 (ucast a) AND 0x3F)) AND 0xFF) = (a :: 8 word)"
proof (rule bit_eqI)
  fix n
  assume "possible_bit TYPE(8 word) n"
  then have n8: "n < 8" by (simp add: possible_bit_def)
  show "bit (ucast ((push_bit 2 (signed_drop_bit 2 (ucast a :: 32 word) AND 0x3F) OR
           signed_drop_bit 4 (push_bit 4 (ucast a) AND 0x3F)) AND 0xFF) :: 8 word) n = bit a n"
  proof (cases "n < 2")
    case True
    then show ?thesis unfolding m6 m8 by (auto simp: bit_simps sdb)
  next
    case False
    then obtain m where m: "n = m + 2" using le_Suc_ex[of 2 n] by (auto simp: add.commute)
    show ?thesis using n8 unfolding m6 m8 m by (auto simp: bit_simps sdb)
  qed
qed

lemma add_pack2: "push_bit 8 (ucast (a :: 8 word) :: 32 word) + ucast (b :: 8 word) = pack2 a b"
  unfolding pack2_def by (rule disjunctive_add) (auto simp: bit_simps dest: bit8)

lemma bit_pack2: "bit (pack2 a b) n \<longleftrightarrow> (8 \<le> n \<and> bit a (n - 8)) \<or> bit b n"
  unfolding pack2_def by (auto simp: bit_simps dest: bit8)

lemma t2: "signed_drop_bit 10 (pack2 a b) AND 0x3F = signed_drop_bit 10 (pack2 a b)"
  unfolding m6 by (rule bit_eqI) (auto simp: bit_simps bit_pack2 dest: bit8)

lemma tail2_tmp:
  "push_bit 10 (signed_drop_bit 10 (pack2 a b) AND 0x3F) OR
   push_bit 4 (signed_drop_bit 4 (pack2 a b) AND 0x3F) OR
   signed_drop_bit 2 (push_bit 2 (pack2 a b) AND 0x3F) = pack2 a b"
proof (rule bit_eqI)
  fix n
  assume "possible_bit TYPE(32 word) n"
  consider "n < 4" | "4 \<le> n" "n < 10" | "10 \<le> n" "n < 16" | "16 \<le> n"
    by linarith
  then show "bit (push_bit 10 (signed_drop_bit 10 (pack2 a b) AND 0x3F) OR
   push_bit 4 (signed_drop_bit 4 (pack2 a b) AND 0x3F) OR
   signed_drop_bit 2 (push_bit 2 (pack2 a b) AND 0x3F)) n = bit (pack2 a b) n"
  proof cases
    case 1
    then show ?thesis unfolding m6 by (auto simp: bit_simps sdb)
  next
    case 2
    then show ?thesis unfolding m6 by (auto simp: bit_simps sdb)
  next
    case 3
    then show ?thesis unfolding m6 by (auto simp: bit_simps sdb)
  next
    case 4
    then have "\<not> bit (pack2 a b) n" by (auto simp: bit_pack2 dest: bit8)
    with 4 show ?thesis unfolding m6 by (auto simp: bit_simps sdb)
  qed
qed

lemma tail2_a: "ucast (signed_drop_bit 8 (pack2 a b) AND 0xFF) = a"
  unfolding m8 by (rule bit_eqI) (auto simp: bit_simps bit_pack2 dest: bit8)

lemma tail2_b: "ucast ((pack2 a b) AND 0xFF) = b"
  unfolding m8 by (rule bit_eqI) (auto simp: bit_simps bit_pack2 dest: bit8)


lemma code_char:
  "c \<in> set code \<Longrightarrow> isBase64Char c \<and> c \<noteq> eqSign \<and> \<not> isWhiteSpace c"
  using code_props by (auto simp: list_all_iff)

lemma code_nth_sext: "code ! unat (y AND 0x3F :: 32 word) \<in> set code"
  using sext_lt[of y] by (simp add: length_code)

lemma set_encTriples: "set (encTriples xs) \<subseteq> set code"
  by (induction xs rule: encTriples.induct) (auto simp: tripletToBase64_eq code_nth_sext)

lemma length_encTriples: "length (encTriples xs) = 4 * (length xs div 3)"
proof (induction xs rule: encTriples.induct)
  case (1 a b c rest)
  have "length (a # b # c # rest) div 3 = Suc (length rest div 3)" by simp
  with 1 show ?case by (simp only: encTriples.simps length_append length_tripletToBase64) simp
qed simp_all

lemma js_eqs: "js ''=='' = [eqSign, eqSign]" "js ''='' = [eqSign]"
  by (simp_all add: js_def eqSign_def)

lemma encTail1:
  "encTail [a] = [code ! unat (signed_drop_bit 2 (ucast a) AND 0x3F :: 32 word),
                  code ! unat (push_bit 4 (ucast a) AND 0x3F :: 32 word)] @ [eqSign, eqSign]"
  using lookup_sext[of "signed_drop_bit 2 (ucast a)"] by (simp add: t1 lookup_sext js_eqs)

lemma encTail2:
  "encTail [a, b] = [code ! unat (signed_drop_bit 10 (pack2 a b) AND 0x3F),
                     code ! unat (signed_drop_bit 4 (pack2 a b) AND 0x3F),
                     code ! unat (push_bit 2 (pack2 a b) AND 0x3F)] @ [eqSign]"
  using lookup_sext[of "signed_drop_bit 10 (pack2 a b)"] by (simp add: add_pack2 t2 lookup_sext js_eqs)

lemma trim_id:
  assumes "\<And>c. c \<in> set s \<Longrightarrow> \<not> isWhiteSpace c"
  shows "trim s = s"
proof -
  have d: "dropWhile isWhiteSpace xs = xs" if "\<And>c. c \<in> set xs \<Longrightarrow> \<not> isWhiteSpace c" for xs
    using that by (cases xs) simp_all
  have "dropWhile isWhiteSpace s = s" using assms by (rule d)
  moreover have "dropWhile isWhiteSpace (rev s) = rev s" using assms by (intro d) simp
  ultimately show ?thesis by (simp add: trim_def)
qed

lemma takeWhile_body:
  assumes "set body \<subseteq> set code" "pad = [] \<or> hd pad = eqSign"
  shows "takeWhile (\<lambda>c. c \<noteq> eqSign) (body @ pad) = body"
proof -
  have "\<And>c. c \<in> set body \<Longrightarrow> c \<noteq> eqSign" using assms(1) code_char by blast
  moreover have "takeWhile (\<lambda>c. c \<noteq> eqSign) pad = []"
    using assms(2) by (cases pad) simp_all
  ultimately show ?thesis by (simp add: takeWhile_append2)
qed

lemma padLoop_0: "length s mod 4 = 0 \<Longrightarrow> padLoop s = s"
  by (subst padLoop.simps) simp

lemma padLoop_3: "length s mod 4 = 3 \<Longrightarrow> padLoop s = s @ [eqSign]"
proof -
  assume a: "length s mod 4 = 3"
  then have "length (s @ [eqSign]) mod 4 = 0" by (simp add: mod_Suc)
  then have "padLoop (s @ [eqSign]) = s @ [eqSign]" by (rule padLoop_0)
  then show ?thesis using a by (subst padLoop.simps) simp
qed

lemma padLoop_2: "length s mod 4 = 2 \<Longrightarrow> padLoop s = s @ [eqSign, eqSign]"
proof -
  assume a: "length s mod 4 = 2"
  then have "length (s @ [eqSign]) mod 4 = 3" by (simp add: mod_Suc)
  then have "padLoop (s @ [eqSign]) = (s @ [eqSign]) @ [eqSign]" by (rule padLoop_3)
  then show ?thesis using a by (subst padLoop.simps) simp
qed

lemma base64clean_enc:
  assumes "wellPadded body pad"
  shows "base64clean (body @ pad) = body @ pad"
proof -
  have sub: "set body \<subseteq> set code" using assms by (simp add: wellPadded_def)
  have "pad = [] \<or> hd pad = eqSign" using assms by (auto simp: wellPadded_def)
  then have 1: "takeWhile (\<lambda>c. c \<noteq> eqSign) (body @ pad) = body"
    using sub by (intro takeWhile_body)
  have 2: "trim body = body" using sub code_char by (intro trim_id) blast
  have 3: "filter isBase64Char body = body" using sub code_char by (intro filter_True) blast
  have c: "base64clean (body @ pad) = (if length body < 2 then [] else padLoop body)"
    by (simp add: base64clean_def 1 2 3)
  from assms consider "pad = []" "length body mod 4 = 0" | "pad = [eqSign, eqSign]" "length body mod 4 = 2"
    | "pad = [eqSign]" "length body mod 4 = 3" by (auto simp: wellPadded_def)
  then show ?thesis
  proof cases
    case 1
    then have "length body < 2 \<Longrightarrow> body = []" by (cases body) auto
    with 1 show ?thesis unfolding c by (auto simp: padLoop_0)
  next
    case 2
    then have "\<not> length body < 2" by auto
    with 2 show ?thesis unfolding c by (simp add: padLoop_2)
  next
    case 3
    then have "\<not> length body < 2" by auto
    with 3 show ?thesis unfolding c by (simp add: padLoop_3)
  qed
qed

lemma indexOf_None: "e \<notin> set body \<Longrightarrow> indexOf body e = None"
  by (induction body) auto

lemma indexOf_Some: "e \<notin> set body \<Longrightarrow> indexOf (body @ e # rest) e = Some (length body)"
  by (induction body) auto

lemma getLens_enc:
  assumes "wellPadded body pad"
  shows "getLens (body @ pad) = Inr (length body, length pad)"
proof -
  have ne: "eqSign \<notin> set body"
    using assms code_char by (auto simp: wellPadded_def)
  from assms consider "pad = []" "length body mod 4 = 0" | "pad = [eqSign, eqSign]" "length body mod 4 = 2"
    | "pad = [eqSign]" "length body mod 4 = 3" by (auto simp: wellPadded_def)
  then show ?thesis
  proof cases
    case 1
    then show ?thesis using indexOf_None[OF ne] by (simp add: getLens_def)
  next
    case 2
    then have "(length body + 2) mod 4 = 0" by presburger
    with 2 show ?thesis using indexOf_Some[OF ne, of "[eqSign]"]
      by (simp add: getLens_def)
  next
    case 3
    then have "(length body + 1) mod 4 = 0" by presburger
    with 3 show ?thesis using indexOf_Some[OF ne, of "[]"]
      by (simp add: getLens_def)
  qed
qed

lemma wellPadded_enc:
  assumes "length main mod 3 = 0"
  shows "wellPadded (encTriples main) []"
    "wellPadded (encTriples main @ [code ! unat (signed_drop_bit 2 (ucast a) AND 0x3F :: 32 word),
                  code ! unat (push_bit 4 (ucast a) AND 0x3F :: 32 word)]) [eqSign, eqSign]"
    "wellPadded (encTriples main @ [code ! unat (signed_drop_bit 10 (pack2 a b) AND 0x3F),
                     code ! unat (signed_drop_bit 4 (pack2 a b) AND 0x3F),
                     code ! unat (push_bit 2 (pack2 a b) AND 0x3F)]) [eqSign]"
proof -
  have "Suc (Suc (4 * (length main div 3))) mod 4 = 2" "Suc (Suc (Suc (4 * (length main div 3)))) mod 4 = 3"
    by presburger+
  then show "wellPadded (encTriples main) []"
    "wellPadded (encTriples main @ [code ! unat (signed_drop_bit 2 (ucast a) AND 0x3F :: 32 word),
                  code ! unat (push_bit 4 (ucast a) AND 0x3F :: 32 word)]) [eqSign, eqSign]"
    "wellPadded (encTriples main @ [code ! unat (signed_drop_bit 10 (pack2 a b) AND 0x3F),
                     code ! unat (signed_drop_bit 4 (pack2 a b) AND 0x3F),
                     code ! unat (push_bit 2 (pack2 a b) AND 0x3F)]) [eqSign]"
    using set_encTriples[of main]
    by (simp_all add: wellPadded_def length_encTriples code_nth_sext)
qed

lemma byteLength_enc:
  "byteLength' (4 * k) 0 = int (3 * k)"
  "byteLength' (4 * k + 2) 2 = int (3 * k + 1)"
  "byteLength' (4 * k + 3) 1 = int (3 * k + 2)"
  by (simp_all add: byteLength'_def)

lemma toByteArray_enc0:
  assumes "length main mod 3 = 0"
  shows "toByteArray (encTriples main) = Inr main"
proof -
  let ?k = "length main div 3"
  have len: "length main = 3 * ?k" using assms by presburger
  have g: "getLens (encTriples main) = Inr (4 * ?k, 0)"
    using getLens_enc[OF wellPadded_enc(1)[OF assms]] by (simp add: length_encTriples)
  have d: "decodeLoop ([] @ encTriples main @ []) (4 * ?k) 0 (replicate (3 * ?k) 0) 0 =
           (0 + 4 * ?k, take 0 (replicate (3 * ?k) 0) @ main @ drop (0 + length main) (replicate (3 * ?k) 0), 0 + length main)"
    using assms len by (intro decodeLoop_encTriples) simp_all
  show ?thesis
    using d len by (simp add: toByteArray_def g byteLength_enc)
qed

lemma toByteArray_p0:
  assumes "getLens b64 = Inr (v, 0)" "0 \<le> byteLength' v 0"
    "decodeLoop b64 v 0 (replicate (nat (byteLength' v 0)) 0) 0 = (i, arr, cur)"
  shows "toByteArray b64 = Inr arr"
  using assms by (simp add: toByteArray_def)

lemma toByteArray_p2:
  assumes "getLens b64 = Inr (v, 2)" "0 \<le> byteLength' v 2"
    "decodeLoop b64 (v - 4) 0 (replicate (nat (byteLength' v 2)) 0) 0 = (i, arr, cur)"
  shows "toByteArray b64 =
    Inr (arr[cur := ucast ((push_bit 2 (revLookupAt b64 i) OR
                            signed_drop_bit 4 (revLookupAt b64 (i + 1))) AND 0xFF)])"
  using assms by (simp add: toByteArray_def)

lemma toByteArray_p1:
  assumes "getLens b64 = Inr (v, 1)" "0 \<le> byteLength' v 1"
    "decodeLoop b64 (v - 4) 0 (replicate (nat (byteLength' v 1)) 0) 0 = (i, arr, cur)"
  shows "toByteArray b64 =
    Inr (arr[cur := ucast (signed_drop_bit 8
                      (push_bit 10 (revLookupAt b64 i) OR push_bit 4 (revLookupAt b64 (i + 1)) OR
                       signed_drop_bit 2 (revLookupAt b64 (i + 2))) AND 0xFF),
             cur + 1 := ucast ((push_bit 10 (revLookupAt b64 i) OR push_bit 4 (revLookupAt b64 (i + 1)) OR
                       signed_drop_bit 2 (revLookupAt b64 (i + 2))) AND 0xFF)])"
  using assms by (simp add: toByteArray_def Let_def)

lemma toByteArray_enc1:
  assumes "length main mod 3 = 0"
  shows "toByteArray (encTriples main @ encTail [a]) = Inr (main @ [a])"
proof -
  let ?k = "length main div 3"
  let ?q = "[code ! unat (signed_drop_bit 2 (ucast a) AND 0x3F :: 32 word),
             code ! unat (push_bit 4 (ucast a) AND 0x3F :: 32 word)]"
  let ?b64 = "encTriples main @ ?q @ [eqSign, eqSign]"
  have len: "length main = 3 * ?k" using assms by presburger
  have g: "getLens ?b64 = Inr (4 * ?k + 2, 2)"
    using getLens_enc[OF wellPadded_enc(2)[OF assms, of a]] by (simp add: length_encTriples)
  have d: "decodeLoop ([] @ encTriples main @ (?q @ [eqSign, eqSign])) (4 * ?k + 2 - 4) 0 (replicate (3 * ?k + 1) 0) 0 =
           (0 + 4 * ?k, take 0 (replicate (3 * ?k + 1) 0) @ main @ drop (0 + length main) (replicate (3 * ?k + 1) 0),
            0 + length main)"
    using assms len by (intro decodeLoop_encTriples) simp_all
  have dr: "drop (0 + length main) (replicate (3 * ?k + 1) (0::8 word)) = [0]"
  proof -
    have "3 * ?k + 1 - (0 + length main) = 1" using len by simp
    then show ?thesis by (simp only: drop_replicate) simp
  qed
  have d': "decodeLoop ?b64 (4 * ?k + 2 - 4) 0 (replicate (3 * ?k + 1) 0) 0 = (4 * ?k, main @ [0], length main)"
    using d unfolding dr by simp
  have r: "revLookupAt ?b64 (4 * ?k) = signed_drop_bit 2 (ucast a) AND 0x3F"
      "revLookupAt ?b64 (4 * ?k + 1) = push_bit 4 (ucast a) AND 0x3F"
    using revLookupAt_append[of "encTriples main" ?q "[eqSign, eqSign]" 0]
      revLookupAt_append[of "encTriples main" ?q "[eqSign, eqSign]" 1]
    by (simp_all add: length_encTriples) (simp_all add: revLookupAt_def revLookup_sext)
  have u: "(main @ [0])[length main := a] = main @ [a]"
    using list_update_length[of main 0 "[]" a] by simp
  have bl: "nat (byteLength' (4 * ?k + 2) 2) = 3 * ?k + 1"
    by (simp add: byteLength'_def)
  have "toByteArray ?b64 =
      Inr ((main @ [0])[length main := ucast ((push_bit 2 (revLookupAt ?b64 (4 * ?k)) OR
                            signed_drop_bit 4 (revLookupAt ?b64 (4 * ?k + 1))) AND 0xFF)])"
  proof (rule toByteArray_p2[OF g])
    show "0 \<le> byteLength' (4 * ?k + 2) 2" by (simp add: byteLength'_def)
    show "decodeLoop ?b64 (4 * ?k + 2 - 4) 0 (replicate (nat (byteLength' (4 * ?k + 2) 2)) 0) 0 =
          (4 * ?k, main @ [0], length main)"
      unfolding bl by (rule d')
  qed
  then have "toByteArray ?b64 = Inr (main @ [a])"
    by (simp only: r tail1 u)
  then show ?thesis by (simp add: encTail1 del: encTail.simps)
qed

lemma toByteArray_enc2:
  assumes "length main mod 3 = 0"
  shows "toByteArray (encTriples main @ encTail [a, b]) = Inr (main @ [a, b])"
proof -
  let ?k = "length main div 3"
  let ?q = "[code ! unat (signed_drop_bit 10 (pack2 a b) AND 0x3F),
             code ! unat (signed_drop_bit 4 (pack2 a b) AND 0x3F),
             code ! unat (push_bit 2 (pack2 a b) AND 0x3F)]"
  let ?b64 = "encTriples main @ ?q @ [eqSign]"
  have len: "length main = 3 * ?k" using assms by presburger
  have g: "getLens ?b64 = Inr (4 * ?k + 3, 1)"
    using getLens_enc[OF wellPadded_enc(3)[OF assms, of a b]] by (simp add: length_encTriples)
  have d: "decodeLoop ([] @ encTriples main @ (?q @ [eqSign])) (4 * ?k + 3 - 4) 0 (replicate (3 * ?k + 2) 0) 0 =
           (0 + 4 * ?k, take 0 (replicate (3 * ?k + 2) 0) @ main @ drop (0 + length main) (replicate (3 * ?k + 2) 0),
            0 + length main)"
    using assms len by (intro decodeLoop_encTriples) simp_all
  have dr: "drop (0 + length main) (replicate (3 * ?k + 2) (0::8 word)) = [0, 0]"
  proof -
    have "3 * ?k + 2 - (0 + length main) = 2" using len by simp
    then show ?thesis by (simp only: drop_replicate) (simp add: numeral_2_eq_2)
  qed
  have d': "decodeLoop ?b64 (4 * ?k + 3 - 4) 0 (replicate (3 * ?k + 2) 0) 0 = (4 * ?k, main @ [0, 0], length main)"
    using d unfolding dr by simp
  have r: "revLookupAt ?b64 (4 * ?k) = signed_drop_bit 10 (pack2 a b) AND 0x3F"
      "revLookupAt ?b64 (4 * ?k + 1) = signed_drop_bit 4 (pack2 a b) AND 0x3F"
      "revLookupAt ?b64 (4 * ?k + 2) = push_bit 2 (pack2 a b) AND 0x3F"
    using revLookupAt_append[of "encTriples main" ?q "[eqSign]" 0]
      revLookupAt_append[of "encTriples main" ?q "[eqSign]" 1]
      revLookupAt_append[of "encTriples main" ?q "[eqSign]" 2]
    by (simp_all add: length_encTriples) (simp_all add: revLookupAt_def revLookup_sext)
  have u: "(main @ [0, 0])[length main := a, length main + 1 := b] = main @ [a, b]"
    using list_update_length[of main 0 "[0]" a] list_update_length[of "main @ [a]" 0 "[]" b] by simp
  have bl: "nat (byteLength' (4 * ?k + 3) 1) = 3 * ?k + 2"
    by (simp add: byteLength'_def)
  have "toByteArray ?b64 =
      Inr ((main @ [0, 0])[length main := ucast (signed_drop_bit 8
                      (push_bit 10 (revLookupAt ?b64 (4 * ?k)) OR push_bit 4 (revLookupAt ?b64 (4 * ?k + 1)) OR
                       signed_drop_bit 2 (revLookupAt ?b64 (4 * ?k + 2))) AND 0xFF),
             length main + 1 := ucast ((push_bit 10 (revLookupAt ?b64 (4 * ?k)) OR
                       push_bit 4 (revLookupAt ?b64 (4 * ?k + 1)) OR
                       signed_drop_bit 2 (revLookupAt ?b64 (4 * ?k + 2))) AND 0xFF)])"
  proof (rule toByteArray_p1[OF g])
    show "0 \<le> byteLength' (4 * ?k + 3) 1" by (simp add: byteLength'_def)
    show "decodeLoop ?b64 (4 * ?k + 3 - 4) 0 (replicate (nat (byteLength' (4 * ?k + 3) 1)) 0) 0 =
          (4 * ?k, main @ [0, 0], length main)"
      unfolding bl by (rule d')
  qed
  then have "toByteArray ?b64 = Inr (main @ [a, b])"
    by (simp only: r tail2_tmp tail2_a tail2_b u)
  then show ?thesis by (simp add: encTail2 del: encTail.simps)
qed

lemma base64ToBytes_enc:
  assumes m: "length main mod 3 = 0" and t: "length rest < 3"
  shows "base64ToBytes (encTriples main @ encTail rest) = Inr (main @ rest)"
proof -
  from t consider "rest = []" | a where "rest = [a]" | a b where "rest = [a, b]"
    by (cases rest rule: encTail.cases) auto
  then show ?thesis
  proof cases
    case 1
    have "base64clean (encTriples main @ []) = encTriples main @ []"
      using wellPadded_enc(1)[OF m] by (rule base64clean_enc)
    then show ?thesis using 1 toByteArray_enc0[OF m] by (simp add: base64ToBytes_def)
  next
    case 2
    have "base64clean ((encTriples main @ [code ! unat (signed_drop_bit 2 (ucast a) AND 0x3F :: 32 word),
                  code ! unat (push_bit 4 (ucast a) AND 0x3F :: 32 word)]) @ [eqSign, eqSign]) =
          (encTriples main @ [code ! unat (signed_drop_bit 2 (ucast a) AND 0x3F :: 32 word),
                  code ! unat (push_bit 4 (ucast a) AND 0x3F :: 32 word)]) @ [eqSign, eqSign]"
      using wellPadded_enc(2)[OF m] by (rule base64clean_enc)
    then have "base64clean (encTriples main @ encTail [a]) = encTriples main @ encTail [a]"
      by (simp add: encTail1 del: encTail.simps)
    then show ?thesis using 2 toByteArray_enc1[OF m, of a] by (simp add: base64ToBytes_def del: encTail.simps)
  next
    case 3
    have "base64clean ((encTriples main @ [code ! unat (signed_drop_bit 10 (pack2 a b) AND 0x3F),
                     code ! unat (signed_drop_bit 4 (pack2 a b) AND 0x3F),
                     code ! unat (push_bit 2 (pack2 a b) AND 0x3F)]) @ [eqSign]) =
          (encTriples main @ [code ! unat (signed_drop_bit 10 (pack2 a b) AND 0x3F),
                     code ! unat (signed_drop_bit 4 (pack2 a b) AND 0x3F),
                     code ! unat (push_bit 2 (pack2 a b) AND 0x3F)]) @ [eqSign]"
      using wellPadded_enc(3)[OF m] by (rule base64clean_enc)
    then have "base64clean (encTriples main @ encTail [a, b]) = encTriples main @ encTail [a, b]"
      by (simp add: encTail2 del: encTail.simps)
    then show ?thesis using 3 toByteArray_enc2[OF m, of a b] by (simp add: base64ToBytes_def del: encTail.simps)
  qed
qed

lemma decode_encode: "base64ToUint8Array (uint8ArrayToBase64 b) = Inr b"
proof -
  let ?r = "length b mod 3"
  have "(length b - ?r) mod 3 = 0"
    by (simp add: minus_mod_eq_mult_div)
  then have m: "length (take (length b - ?r) b) mod 3 = 0"
    by (simp add: min_absorb2)
  have t: "length (drop (length b - ?r) b) < 3"
    by simp
  show ?thesis
    using base64ToBytes_enc[OF m t]
    by (simp add: base64ToUint8Array_def uint8ArrayToBase64_def fromByteArray_eq)
qed

lemma padLoop_1: "length s mod 4 = 1 \<Longrightarrow> padLoop s = s @ [eqSign, eqSign, eqSign]"
proof -
  assume a: "length s mod 4 = 1"
  then have "length (s @ [eqSign]) mod 4 = 2" by (simp add: mod_Suc)
  then have "padLoop (s @ [eqSign]) = (s @ [eqSign]) @ [eqSign, eqSign]" by (rule padLoop_2)
  then show ?thesis using a by (subst padLoop.simps) simp
qed

lemma padLoop_eq: "padLoop s = s @ replicate ((4 - length s mod 4) mod 4) eqSign"
proof -
  have "length s mod 4 < 4" by simp
  then consider "length s mod 4 = 0" | "length s mod 4 = 1" | "length s mod 4 = 2" | "length s mod 4 = 3"
    by linarith
  then show ?thesis
  proof cases
    case 1 then show ?thesis by (simp add: padLoop_0)
  next
    case 2
    have "replicate 3 eqSign = [eqSign, eqSign, eqSign]"
      by (simp only: numeral_3_eq_3 replicate.simps)
    with 2 show ?thesis by (simp add: padLoop_1)
  next
    case 3
    have "replicate 2 eqSign = [eqSign, eqSign]"
      by (simp only: numeral_2_eq_2 replicate.simps)
    with 3 show ?thesis by (simp add: padLoop_2)
  next
    case 4 then show ?thesis by (simp add: padLoop_3)
  qed
qed

lemma length_padLoop: "length (padLoop s) mod 4 = 0"
proof -
  have "length s mod 4 < 4" by simp
  then consider "length s mod 4 = 0" | "length s mod 4 = 1" | "length s mod 4 = 2" | "length s mod 4 = 3"
    by linarith
  then show ?thesis
  proof cases
    case 1 then show ?thesis by (simp add: padLoop_0)
  next
    case 2
    then have "(length s + 3) mod 4 = 0" by presburger
    with 2 show ?thesis by (simp add: padLoop_1 add.commute)
  next
    case 3
    then have "(length s + 2) mod 4 = 0" by presburger
    with 3 show ?thesis by (simp add: padLoop_2 add.commute)
  next
    case 4
    then have "(length s + 1) mod 4 = 0" by presburger
    with 4 show ?thesis by (simp add: padLoop_3 add.commute)
  qed
qed

lemma byteLength_nonneg:
  assumes "4 \<le> v + p" "p \<le> 3"
  shows "0 \<le> byteLength' v p"
proof -
  have "(4::int) \<le> int v + int p" using assms(1) by linarith
  then have "(12::int) \<le> (int v + int p) * 3" by (simp add: algebra_simps)
  then have "(12::int) div 4 \<le> (int v + int p) * 3 div 4"
    by (intro zdiv_mono1) simp_all
  then show ?thesis using assms(2) by (simp add: byteLength'_def)
qed

lemma toByteArray_Inr:
  "getLens b64 = Inr (v, p) \<Longrightarrow> 0 \<le> byteLength' v p \<Longrightarrow> \<exists>bs. toByteArray b64 = Inr bs"
  by (auto simp: toByteArray_def Let_def split: prod.splits)

lemma not_base64_eqSign: "\<not> isBase64Char eqSign"
  by (simp add: isBase64Char_def eqSign_def)

lemma toByteArray_padLoop:
  assumes "eqSign \<notin> set body" "2 \<le> length body"
  shows "\<exists>bs. toByteArray (padLoop body) = Inr bs"
proof -
  let ?n = "length body"
  let ?r = "(4 - ?n mod 4) mod 4"
  have len: "length (padLoop body) mod 4 = 0"
    by (rule length_padLoop)
  show ?thesis
  proof (cases "?n mod 4 = 0")
    case True
    then have p: "padLoop body = body" by (rule padLoop_0)
    have "getLens body = Inr (?n, 0)"
      using True indexOf_None[OF assms(1)] by (simp add: getLens_def)
    moreover have "0 \<le> byteLength' ?n 0" by (simp add: byteLength'_def)
    ultimately show ?thesis unfolding p by (rule toByteArray_Inr)
  next
    case False
    have "?n mod 4 < 4" by simp
    with False have "?r \<noteq> 0" by (simp add: mod_eq_0_iff_dvd) presburger
    then obtain k where k: "?r = Suc k" by (cases ?r) simp_all
    have i: "indexOf (padLoop body) eqSign = Some ?n"
      unfolding padLoop_eq k using indexOf_Some[OF assms(1), of "replicate k eqSign"] by simp
    have "?n \<noteq> length (padLoop body)" unfolding padLoop_eq k by simp
    then have "getLens (padLoop body) = Inr (?n, 4 - ?n mod 4)"
      using len i by (simp add: getLens_def Let_def)
    moreover have "0 \<le> byteLength' ?n (4 - ?n mod 4)"
    proof -
      have "?n mod 4 < 4" by simp
      with False have "4 \<le> ?n + (4 - ?n mod 4)" "4 - ?n mod 4 \<le> 3" using assms(2) by linarith+
      then show ?thesis by (rule byteLength_nonneg)
    qed
    ultimately show ?thesis by (rule toByteArray_Inr)
  qed
qed

lemma toByteArray_Nil: "toByteArray [] = Inr []"
  by (subst toByteArray_def, subst decodeLoop.simps) (simp add: getLens_def byteLength'_def)

lemma base64ToBytes_total: "\<exists>bs. base64ToBytes s = Inr bs"
proof -
  let ?body = "filter isBase64Char (trim (takeWhile (\<lambda>c. c \<noteq> eqSign) s))"
  show ?thesis
  proof (cases "length ?body < 2")
    case True
    then show ?thesis by (simp add: base64ToBytes_def base64clean_def Let_def toByteArray_Nil)
  next
    case False
    have "eqSign \<notin> set ?body" using not_base64_eqSign by auto
    moreover have "2 \<le> length ?body" using False by simp
    ultimately have "\<exists>bs. toByteArray (padLoop ?body) = Inr bs" by (rule toByteArray_padLoop)
    then show ?thesis using False by (simp add: base64ToBytes_def base64clean_def Let_def)
  qed
qed

lemma ws_not_base64: "isWhiteSpace c \<Longrightarrow> \<not> isBase64Char c"
  by (auto simp: isWhiteSpace_def isBase64Char_def word_le_nat_alt)

lemma filter_dropWhile: "(\<And>c. P c \<Longrightarrow> \<not> Q c) \<Longrightarrow> filter Q (dropWhile P xs) = filter Q xs"
  by (induction xs) auto

lemma filter_trim: "filter isBase64Char (trim t) = filter isBase64Char t"
proof -
  have "filter isBase64Char (trim t) = rev (filter isBase64Char (dropWhile isWhiteSpace (rev (dropWhile isWhiteSpace t))))"
    by (simp add: trim_def rev_filter)
  also have "\<dots> = rev (filter isBase64Char (rev (dropWhile isWhiteSpace t)))"
    by (simp add: filter_dropWhile ws_not_base64)
  also have "\<dots> = filter isBase64Char (dropWhile isWhiteSpace t)"
    by (simp add: rev_filter)
  also have "\<dots> = filter isBase64Char t"
    by (simp add: filter_dropWhile ws_not_base64)
  finally show ?thesis .
qed

lemma base64clean_filter:
  "base64clean s = base64clean (filter isBase64Char (takeWhile (\<lambda>c. c \<noteq> eqSign) s))"
proof -
  let ?cl = "filter isBase64Char (takeWhile (\<lambda>c. c \<noteq> eqSign) s)"
  have 1: "takeWhile (\<lambda>c. c \<noteq> eqSign) ?cl = ?cl"
    using not_base64_eqSign by (intro takeWhile_eq_all_conv[THEN iffD2]) auto
  have 2: "filter isBase64Char (trim ?cl) = ?cl"
    by (simp add: filter_trim)
  show ?thesis
    unfolding base64clean_def[of ?cl] 1 2 by (simp add: base64clean_def filter_trim)
qed

text \<open>
  C2.  Decoding the encoding of a byte buffer gives the buffer back, for every buffer:
  the empty one, and those holding any of the 256 byte values.
\<close>

theorem base64_roundtrip: "base64ToUint8Array (uint8ArrayToBase64 b) = Inr b"
proof -
  let ?r = "length b mod 3"
  have "(length b - ?r) mod 3 = 0"
    by (simp add: minus_mod_eq_mult_div)
  then have whole: "length (take (length b - ?r) b) mod 3 = 0"
    by (simp add: min_absorb2)
  have left: "length (drop (length b - ?r) b) < 3"
    by simp
  have "fromByteArray b =
      encTriples (take (length b - ?r) b) @ encTail (drop (length b - ?r) b)"
    by (rule fromByteArray_eq)
  moreover have "base64ToBytes (encTriples (take (length b - ?r) b) @ encTail (drop (length b - ?r) b)) =
      Inr (take (length b - ?r) b @ drop (length b - ?r) b)"
    using whole left by (rule base64ToBytes_enc)
  ultimately show ?thesis
    by (simp add: base64ToUint8Array_def uint8ArrayToBase64_def)
qed

theorem base64_roundtrip_witness:
  "base64ToUint8Array (uint8ArrayToBase64 []) = Inr [] \<and>
   base64ToUint8Array (uint8ArrayToBase64 [0x00, 0x7F, 0x80, 0xFF]) = Inr [0x00, 0x7F, 0x80, 0xFF] \<and>
   base64ToUint8Array (uint8ArrayToBase64 (map of_nat [0..<256])) = Inr (map of_nat [0..<256])"
  using base64_roundtrip [of "[]"] base64_roundtrip [of "[0x00, 0x7F, 0x80, 0xFF]"]
    base64_roundtrip [of "map of_nat [0..<256]"]
  by blast

text \<open>
  C9, as the code has it.  Decoding never signals an error: for every text it returns a
  byte buffer.  The text from the first \<open>=\<close> on and every character outside
  \<^verbatim>\<open>[+/0-9A-Za-z-_]\<close> are ignored, so a malformed text decodes like the text that is
  left of it.
\<close>

theorem base64ToUint8Array_lenient:
  "(\<exists>bs. base64ToUint8Array s = Inr bs) \<and>
   base64ToUint8Array s =
     base64ToUint8Array (filter isBase64Char (takeWhile (\<lambda>c. c \<noteq> eqSign) s))"
proof
  show "\<exists>bs. base64ToUint8Array s = Inr bs"
    unfolding base64ToUint8Array_def by (rule base64ToBytes_total)
next
  have "base64clean s = base64clean (filter isBase64Char (takeWhile (\<lambda>c. c \<noteq> eqSign) s))"
    by (rule base64clean_filter)
  then show "base64ToUint8Array s =
     base64ToUint8Array (filter isBase64Char (takeWhile (\<lambda>c. c \<noteq> eqSign) s))"
    by (simp add: base64ToUint8Array_def base64ToBytes_def)
qed

theorem base64ToUint8Array_lenient_witness:
  "base64ToUint8Array (js ''QU!JD'') = Inr [0x41, 0x42, 0x43] \<and>
   base64ToUint8Array (js ''QU!JD'') = base64ToUint8Array (js ''QUJD'')"
proof -
  have f: "filter isBase64Char (takeWhile (\<lambda>c. c \<noteq> eqSign) (js ''QU!JD'')) = js ''QUJD''"
    by (simp add: js_def isBase64Char_def eqSign_def)
  have "base64ToUint8Array (js ''QUJD'') = Inr [0x41, 0x42, 0x43]"
    by code_simp
  then show ?thesis
    using base64ToUint8Array_lenient[of "js ''QU!JD''"] unfolding f by simp
qed

theorem base64ToUint8Array_malformed_counterexample:
  "\<not> isBase64Char (of_char CHR ''!'') \<and> length (js ''QU!JD'') mod 4 \<noteq> 0 \<and>
   base64ToUint8Array (js ''QU!JD'') = Inr [0x41, 0x42, 0x43]"
proof -
  have "base64ToUint8Array (js ''QU!JD'') = Inr [0x41, 0x42, 0x43]"
    by code_simp
  then show ?thesis
    by (simp add: isBase64Char_def js_def)
qed

subsection \<open>Totals\<close>

lemma foldl_pages: "foldl (\<lambda>sum p. sum + pages p) a d = a + sum_list (map pages d)"
  by (induction d arbitrary: a) simp_all

lemma totalPages_sum: "totalPages d = sum_list (map pages d)"
  by (simp add: totalPages_def foldl_pages)

text \<open>
  After each operation the total is the sum of the page counts of the items then in the
  session, and the empty session totals 0.  Removing an item that was just added gives
  back the earlier total when no other item of the session carries its id.
\<close>

lemma totalPages_after_operations:
  "totalPages (data (appendItems items s)) = sum_list (map pages (data (appendItems items s))) \<and>
   totalPages (data (removePdf i choice s)) = sum_list (map pages (data (removePdf i choice s))) \<and>
   totalPages (data (onDragEnd newData s)) = sum_list (map pages (data (onDragEnd newData s))) \<and>
   totalPages (data (fst (pickPdf lib result s e))) =
     sum_list (map pages (data (fst (pickPdf lib result s e)))) \<and>
   totalPages (data initialApp) = 0 \<and>
   totalPages (data (appendItems items s)) = totalPages (data s) + totalPages items \<and>
   (totalPages (data s) = 10 \<and> pages x = 5 \<longrightarrow> totalPages (data (appendItems [x] s)) = 15) \<and>
   (totalPages (data s) = 10 \<and> pages x = 5 \<and> itemId x \<notin> itemId ` set (data s) \<longrightarrow>
      totalPages (data (removePdf (itemId x) RemoveConfirm (appendItems [x] s))) = 10)"
proof -
  have app: "data (appendItems items s) = data s @ items" for items
    by (simp add: appendItems_def setData_def)
  have fresh: "filter (\<lambda>p. itemId p \<noteq> itemId x) (data s) = data s"
    if "itemId x \<notin> itemId ` set (data s)"
    using that by (intro filter_True) (metis imageI)
  have rem: "data (removePdf (itemId x) RemoveConfirm (appendItems [x] s)) = data s"
    if "itemId x \<notin> itemId ` set (data s)"
    using fresh[OF that] by (simp add: removePdf_def setData_def app)
  show ?thesis
    using rem by (auto simp: totalPages_sum app initialApp_def)
qed

subsection \<open>Default output name\<close>

lemma asciiLower_dot: "asciiLower c = 0x2E \<longleftrightarrow> c = 0x2E"
  unfolding asciiLower_def by auto

lemma asciiLower_p: "asciiLower c = 0x70 \<longleftrightarrow> c = 0x70 \<or> c = 0x50"
  unfolding asciiLower_def by auto

lemma asciiLower_d: "asciiLower c = 0x64 \<longleftrightarrow> c = 0x64 \<or> c = 0x44"
  unfolding asciiLower_def by auto

lemma asciiLower_f: "asciiLower c = 0x66 \<longleftrightarrow> c = 0x66 \<or> c = 0x46"
  unfolding asciiLower_def by auto

lemma matchPdfAtEnd_iff:
  "matchPdfAtEnd s \<longleftrightarrow> length s = 4 \<and> map asciiLower s = js ''.pdf''"
proof (cases s rule: matchPdfAtEnd.cases)
  case (1 c0 c1 c2 c3)
  show ?thesis unfolding 1
    by (simp add: js_def ieq_def asciiLower_dot asciiLower_p asciiLower_d asciiLower_f)
qed (simp_all add: js_def)

lemma replacePdf_spec: "replacePdf s = spec_stripPdfSuffix s"
proof (induction s)
  case Nil
  then show ?case by (simp add: spec_stripPdfSuffix_def)
next
  case (Cons c cs)
  show ?case
  proof (cases "matchPdfAtEnd (c # cs)")
    case True
    then have "length (c # cs) = 4" "map asciiLower (c # cs) = js ''.pdf''"
      by (simp_all only: matchPdfAtEnd_iff)
    with True show ?thesis
      by (simp add: spec_stripPdfSuffix_def)
  next
    case False
    then have ne: "\<not> (length (c # cs) = 4 \<and> map asciiLower (c # cs) = js ''.pdf'')"
      by (simp only: matchPdfAtEnd_iff not_False_eq_True)
    have r: "replacePdf (c # cs) = c # spec_stripPdfSuffix cs"
      using False Cons.IH by simp
    show ?thesis
    proof (cases "4 \<le> length cs")
      case True
      then have "length (c # cs) - 4 = Suc (length cs - 4)" by simp
      then show ?thesis using True r
        by (simp add: spec_stripPdfSuffix_def)
    next
      case False
      then have "length cs < 4" by simp
      then show ?thesis using r ne
        by (auto simp add: spec_stripPdfSuffix_def)
    qed
  qed
qed

text \<open>
  C7.  The default output name is \<open>merged.pdf\<close> for the empty session; otherwise it is
  the first item's name, with a trailing \<open>.pdf\<close> in any letter case stripped, followed
  by \<open>_merged.pdf\<close>.  So \<open>Report.pdf\<close> gives \<open>Report_merged.pdf\<close> and \<open>report.PDF\<close>
  gives \<open>report_merged.pdf\<close>.
\<close>

theorem getDefaultMergedName_correct:
  "getDefaultMergedName [] = js ''merged.pdf'' \<and>
   getDefaultMergedName (first # rest) = spec_stripPdfSuffix (name first) @ js ''_merged.pdf'' \<and>
   (name first = js ''Report.pdf'' \<longrightarrow>
      getDefaultMergedName (first # rest) = js ''Report_merged.pdf'') \<and>
   (name first = js ''report.PDF'' \<longrightarrow>
      getDefaultMergedName (first # rest) = js ''report_merged.pdf'')"
proof -
  have 1: "getDefaultMergedName [] = js ''merged.pdf''"
    by (simp add: getDefaultMergedName_def)
  have 2: "getDefaultMergedName (first # rest) = spec_stripPdfSuffix (name first) @ js ''_merged.pdf''"
    by (simp add: getDefaultMergedName_def replacePdf_spec)
  have 3: "spec_stripPdfSuffix (js ''Report.pdf'') @ js ''_merged.pdf'' = js ''Report_merged.pdf''"
    by (simp add: spec_stripPdfSuffix_def js_def asciiLower_def)
  have 4: "spec_stripPdfSuffix (js ''report.PDF'') @ js ''_merged.pdf'' = js ''report_merged.pdf''"
    by (simp add: spec_stripPdfSuffix_def js_def asciiLower_def)
  show ?thesis
    using 1 2 3 4 by (simp del: append_eq_append_conv)
qed

theorem getDefaultMergedName_correct_witness:
  "name \<lparr>itemId = js ''1700000000000-0'', name = js ''report.PDF'', uri = js ''file:///a'', pages = 3\<rparr>
     = js ''report.PDF'' \<and>
   getDefaultMergedName
     [\<lparr>itemId = js ''1700000000000-0'', name = js ''report.PDF'', uri = js ''file:///a'', pages = 3\<rparr>,
      \<lparr>itemId = js ''1700000000000-1'', name = js ''b.pdf'', uri = js ''file:///b'', pages = 2\<rparr>]
     = js ''report_merged.pdf''"
proof -
  have n: "name \<lparr>itemId = js ''1700000000000-0'', name = js ''report.PDF'', uri = js ''file:///a'', pages = 3\<rparr>
     = js ''report.PDF''"
    by simp
  from getDefaultMergedName_correct
    [of "\<lparr>itemId = js ''1700000000000-0'', name = js ''report.PDF'', uri = js ''file:///a'', pages = 3\<rparr>"
        "[\<lparr>itemId = js ''1700000000000-1'', name = js ''b.pdf'', uri = js ''file:///b'', pages = 2\<rparr>]"]
  have "getDefaultMergedName
     [\<lparr>itemId = js ''1700000000000-0'', name = js ''report.PDF'', uri = js ''file:///a'', pages = 3\<rparr>,
      \<lparr>itemId = js ''1700000000000-1'', name = js ''b.pdf'', uri = js ''file:///b'', pages = 2\<rparr>]
     = js ''report_merged.pdf''"
    using n by blast
  with n show ?thesis by blast
qed

subsection \<open>Reordering\<close>

text \<open>
  C8, as the code has it.  The reorder handler checks nothing and cannot fail: the list
  it is handed replaces the item list, and the output name is reset from it.  When that
  list is a rearrangement of the current items, as the drag list supplies, the session
  holds the same items in the new order, so page counts and total are unchanged.
\<close>

theorem onDragEnd_replaces:
  "data (onDragEnd newData s) = newData \<and>
   fileName (onDragEnd newData s) = getDefaultMergedName newData \<and>
   (mset newData = mset (data s) \<longrightarrow>
      (\<forall>p\<in>set (data (onDragEnd newData s)). p \<in> set (data s)) \<and>
      length (data (onDragEnd newData s)) = length (data s) \<and>
      totalPages (data (onDragEnd newData s)) = totalPages (data s))"
proof -
  have d: "data (onDragEnd newData s) = newData"
    by (simp add: onDragEnd_def setData_def)
  have "totalPages newData = totalPages (data s)" if "mset newData = mset (data s)"
  proof -
    have "mset (map pages newData) = mset (map pages (data s))"
      using that by simp
    then have "sum_list (map pages newData) = sum_list (map pages (data s))"
      by (metis sum_mset_sum_list)
    then show ?thesis by (simp add: totalPages_sum)
  qed
  moreover have "p \<in> set (data s)" if "mset newData = mset (data s)" "p \<in> set newData" for p
    using that by (metis set_mset_mset)
  moreover have "length newData = length (data s)" if "mset newData = mset (data s)"
    using that by (metis size_mset)
  ultimately show ?thesis
    unfolding d by (simp add: onDragEnd_def setData_def)
qed

theorem onDragEnd_replaces_witness:
  "mset [exampleItem ''1-2'' ''z.pdf'' 3, exampleItem ''1-0'' ''x.pdf'' 1, exampleItem ''1-1'' ''y.pdf'' 2] =
   mset (data (setData [exampleItem ''1-0'' ''x.pdf'' 1, exampleItem ''1-1'' ''y.pdf'' 2,
                        exampleItem ''1-2'' ''z.pdf'' 3] initialApp)) \<and>
   data (onDragEnd [exampleItem ''1-2'' ''z.pdf'' 3, exampleItem ''1-0'' ''x.pdf'' 1, exampleItem ''1-1'' ''y.pdf'' 2]
           (setData [exampleItem ''1-0'' ''x.pdf'' 1, exampleItem ''1-1'' ''y.pdf'' 2,
                     exampleItem ''1-2'' ''z.pdf'' 3] initialApp)) =
     [exampleItem ''1-2'' ''z.pdf'' 3, exampleItem ''1-0'' ''x.pdf'' 1, exampleItem ''1-1'' ''y.pdf'' 2] \<and>
   totalPages (data (onDragEnd [exampleItem ''1-2'' ''z.pdf'' 3, exampleItem ''1-0'' ''x.pdf'' 1,
                                exampleItem ''1-1'' ''y.pdf'' 2]
           (setData [exampleItem ''1-0'' ''x.pdf'' 1, exampleItem ''1-1'' ''y.pdf'' 2,
                     exampleItem ''1-2'' ''z.pdf'' 3] initialApp))) =
     totalPages (data (setData [exampleItem ''1-0'' ''x.pdf'' 1, exampleItem ''1-1'' ''y.pdf'' 2,
                     exampleItem ''1-2'' ''z.pdf'' 3] initialApp))"
proof -
  let ?s = "setData [exampleItem ''1-0'' ''x.pdf'' 1, exampleItem ''1-1'' ''y.pdf'' 2,
                     exampleItem ''1-2'' ''z.pdf'' 3] initialApp"
  let ?n = "[exampleItem ''1-2'' ''z.pdf'' 3, exampleItem ''1-0'' ''x.pdf'' 1, exampleItem ''1-1'' ''y.pdf'' 2]"
  have m: "mset ?n = mset (data ?s)"
    by (simp add: setData_def)
  from onDragEnd_replaces [of ?n ?s] m show ?thesis by blast
qed

theorem onDragEnd_unchecked_counterexample:
  "\<not> distinct (map itemId [exampleItem ''1-0'' ''x.pdf'' 1, exampleItem ''1-0'' ''x.pdf'' 1,
                             exampleItem ''9-9'' ''w.pdf'' 7]) \<and>
   itemId (exampleItem ''1-1'' ''y.pdf'' 2) \<notin>
     set (map itemId [exampleItem ''1-0'' ''x.pdf'' 1, exampleItem ''1-0'' ''x.pdf'' 1,
                      exampleItem ''9-9'' ''w.pdf'' 7]) \<and>
   itemId (exampleItem ''9-9'' ''w.pdf'' 7) \<notin>
     set (map itemId (data (setData [exampleItem ''1-0'' ''x.pdf'' 1, exampleItem ''1-1'' ''y.pdf'' 2] initialApp))) \<and>
   data (onDragEnd [exampleItem ''1-0'' ''x.pdf'' 1, exampleItem ''1-0'' ''x.pdf'' 1,
                    exampleItem ''9-9'' ''w.pdf'' 7]
           (setData [exampleItem ''1-0'' ''x.pdf'' 1, exampleItem ''1-1'' ''y.pdf'' 2] initialApp)) =
     [exampleItem ''1-0'' ''x.pdf'' 1, exampleItem ''1-0'' ''x.pdf'' 1, exampleItem ''9-9'' ''w.pdf'' 7]"
  by (simp add: onDragEnd_def setData_def exampleItem_def js_def)

subsection \<open>The merge button\<close>

text \<open>
  C5, as the code has it.  A session of fewer than 2 items is refused with
  \<open>TooFewItems\<close> whatever its page count; a session of at least 2 items whose total
  exceeds the limit of 150 is refused with \<open>PageLimitExceeded\<close>, which carries the
  total and the limit; a session of at least 2 items within the limit reaches the
  confirmation dialog.  A refusal runs no assembly and changes neither the session nor
  the platform.
\<close>

theorem onPressMerge_gate:
  "(length (data s) < 2 \<longrightarrow> onPressMerge s = TooFewItems) \<and>
   (2 \<le> length (data s) \<and> totalPages (data s) > MAX_TOTAL_PAGES \<longrightarrow>
      onPressMerge s = PageLimitExceeded (totalPages (data s)) MAX_TOTAL_PAGES) \<and>
   (2 \<le> length (data s) \<and> totalPages (data s) \<le> MAX_TOTAL_PAGES \<longrightarrow>
      (\<exists>finalName. onPressMerge s = ConfirmMerge finalName (length (data s)) (totalPages (data s)))) \<and>
   MAX_TOTAL_PAGES = 150 \<and>
   (length (data s) < 2 \<or> totalPages (data s) > MAX_TOTAL_PAGES \<longrightarrow>
      commitMerge lib button s e = (onPressMerge s, (s, e, None, [])) \<and>
      (onPressMerge s = TooFewItems \<or>
       onPressMerge s = PageLimitExceeded (totalPages (data s)) MAX_TOTAL_PAGES))"
  by (auto simp: onPressMerge_def commitMerge_def MAX_TOTAL_PAGES_def Let_def)

theorem onPressMerge_gate_witness:
  "onPressMerge (setData [exampleItem ''1-0'' ''a.pdf'' 10] initialApp) = TooFewItems \<and>
   onPressMerge (setData [exampleItem ''1-0'' ''a.pdf'' 100, exampleItem ''1-1'' ''b.pdf'' 51] initialApp) =
     PageLimitExceeded 151 150 \<and>
   (\<exists>finalName. onPressMerge (setData [exampleItem ''1-0'' ''a.pdf'' 100, exampleItem ''1-1'' ''b.pdf'' 50] initialApp) =
     ConfirmMerge finalName 2 150) \<and>
   commitMerge exampleLib SaveFile
     (setData [exampleItem ''1-0'' ''a.pdf'' 100, exampleItem ''1-1'' ''b.pdf'' 51] initialApp) exampleEnv =
     (PageLimitExceeded 151 150,
      (setData [exampleItem ''1-0'' ''a.pdf'' 100, exampleItem ''1-1'' ''b.pdf'' 51] initialApp, exampleEnv, None, []))"
proof -
  let ?s1 = "setData [exampleItem ''1-0'' ''a.pdf'' 10] initialApp"
  let ?s151 = "setData [exampleItem ''1-0'' ''a.pdf'' 100, exampleItem ''1-1'' ''b.pdf'' 51] initialApp"
  let ?s150 = "setData [exampleItem ''1-0'' ''a.pdf'' 100, exampleItem ''1-1'' ''b.pdf'' 50] initialApp"
  have 1: "length (data ?s1) < 2"
    by (simp add: setData_def)
  have 2: "2 \<le> length (data ?s151)" "totalPages (data ?s151) = 151"
    by (simp_all add: setData_def totalPages_def exampleItem_def)
  have 3: "2 \<le> length (data ?s150)" "totalPages (data ?s150) = 150" "length (data ?s150) = 2"
    by (simp_all add: setData_def totalPages_def exampleItem_def)
  have m: "MAX_TOTAL_PAGES = 150"
    by (simp add: MAX_TOTAL_PAGES_def)
  from onPressMerge_gate [of ?s1 exampleLib SaveFile exampleEnv] 1
  have a: "onPressMerge ?s1 = TooFewItems"
    by blast
  from onPressMerge_gate [of ?s151 exampleLib SaveFile exampleEnv] 2 m
  have b: "onPressMerge ?s151 = PageLimitExceeded 151 150"
    "commitMerge exampleLib SaveFile ?s151 exampleEnv = (onPressMerge ?s151, (?s151, exampleEnv, None, []))"
    by simp_all
  from onPressMerge_gate [of ?s150 exampleLib SaveFile exampleEnv] 3 m
  have c: "\<exists>finalName. onPressMerge ?s150 = ConfirmMerge finalName 2 150"
    by simp
  from a b c show ?thesis by simp
qed

theorem onPressMerge_gate_counterexample:
  "MAX_TOTAL_PAGES < totalPages (data (setData [exampleItem ''1-0'' ''a.pdf'' 151] initialApp)) \<and>
   onPressMerge (setData [exampleItem ''1-0'' ''a.pdf'' 151] initialApp) = TooFewItems \<and>
   onPressMerge (setData [exampleItem ''1-0'' ''a.pdf'' 151] initialApp) \<noteq> PageLimitExceeded 151 150"
  by (simp add: onPressMerge_def setData_def totalPages_def exampleItem_def MAX_TOTAL_PAGES_def)




subsection \<open>Adding a batch\<close>

lemma normalizePdfUri_plain:
  "OS e \<noteq> js ''android'' \<or> \<not> startsWith u (js ''content://'') \<Longrightarrow> normalizePdfUri e u = (Inr u, e)"
  by (auto simp: normalizePdfUri_def)

lemma documentAt_ticks: "documentAt lib (e\<lparr>ticks := n\<rparr>) u = documentAt lib e u"
  by (simp add: documentAt_def readAsStringAsync_def)

lemma plainUris_ticks: "plainUris (e\<lparr>ticks := n\<rparr>) assets = plainUris e assets"
  by (simp add: plainUris_def)

lemma plainUris_Cons:
  "plainUris e (file # rest) \<Longrightarrow>
   (OS e \<noteq> js ''android'' \<or> \<not> startsWith (assetUri file) (js ''content://'')) \<and> plainUris e rest"
  by (auto simp: plainUris_def)

lemma loadFile_plain:
  "plainUris e [file] \<Longrightarrow>
   loadFile lib e file =
     (case documentAt lib e (assetUri file) of
        Inl err \<Rightarrow> (Inl err, e)
      | Inr pdf \<Rightarrow> (Inr (assetUri file, pdf), e))"
  by (simp add: plainUris_def loadFile_def normalizePdfUri_plain)

lemma pickLoop_plain_step_ok:
  assumes "plainUris e (file # rest)" "documentAt lib e (assetUri file) = Inr doc"
  shows "pickLoop lib (file # rest) i items e =
         pickLoop lib rest (i + 1)
           (items @ [\<lparr>itemId = numberToString (clock e (ticks e)) @ js ''-'' @ numberToString i,
                      name = displayName file, uri = assetUri file, pages = length doc\<rparr>])
           (e\<lparr>ticks := Suc (ticks e)\<rparr>)"
proof -
  have n: "normalizePdfUri e (assetUri file) = (Inr (assetUri file), e)"
    using plainUris_Cons[OF assms(1)] by (intro normalizePdfUri_plain) simp
  show ?thesis
    using assms(2)
    by (auto simp: n documentAt_def Date_now_def displayName_def getPageCount_def split: sum.splits)
qed

lemma pickLoop_plain_step_fail:
  assumes "plainUris e (file # rest)" "documentAt lib e (assetUri file) = Inl err"
  shows "pickLoop lib (file # rest) i items e = (Inl err, e)"
proof -
  have n: "normalizePdfUri e (assetUri file) = (Inr (assetUri file), e)"
    using plainUris_Cons[OF assms(1)] by (intro normalizePdfUri_plain) simp
  show ?thesis
    using assms(2) by (auto simp: n documentAt_def split: sum.splits)
qed

lemma normalizePdfUri_content:
  assumes "OS e = js ''android''" "startsWith u (js ''content://'')"
    "cacheDirectory e = Some dir" "dir \<noteq> []"
  shows "normalizePdfUri e u =
     (case files e u of
        Inl err \<Rightarrow> (Inl err, e\<lparr>ticks := Suc (ticks e)\<rparr>)
      | Inr contents \<Rightarrow>
          (case writeError e (dir @ js ''tmp_'' @ numberToString (clock e (ticks e)) @ js ''.pdf'') of
             Some err \<Rightarrow> (Inl err, e\<lparr>ticks := Suc (ticks e)\<rparr>)
           | None \<Rightarrow>
               (Inr (dir @ js ''tmp_'' @ numberToString (clock e (ticks e)) @ js ''.pdf''),
                e\<lparr>ticks := Suc (ticks e),
                  files := (files e)(dir @ js ''tmp_'' @ numberToString (clock e (ticks e)) @ js ''.pdf'' :=
                             Inr contents)\<rparr>)))"
  using assms
  by (simp add: normalizePdfUri_def Date_now_def copyAsync_def writeAsStringAsync_def Let_def
           split: sum.splits option.splits)

lemma loadFile_content:
  assumes "OS e = js ''android''" "startsWith (assetUri file) (js ''content://'')"
    "cacheDirectory e = Some dir" "dir \<noteq> []"
    "dir @ js ''tmp_'' @ numberToString (clock e (ticks e)) @ js ''.pdf'' = dest"
    "writeError e dest = None"
    "files e (assetUri file) = Inr contents"
    "base64ToUint8Array contents = Inr bs" "load lib bs = Inr pdf"
  shows "loadFile lib e file =
     (Inr (dest, pdf), e\<lparr>ticks := Suc (ticks e), files := (files e)(dest := Inr contents)\<rparr>)"
  using assms(5-9)
  by (simp add: loadFile_def normalizePdfUri_content[OF assms(1-4)] documentAt_def
        readAsStringAsync_def)

lemma loadFile_content_unreadable:
  assumes "OS e = js ''android''" "startsWith (assetUri file) (js ''content://'')"
    "cacheDirectory e = Some dir" "dir \<noteq> []"
    "files e (assetUri file) = Inl err"
  shows "loadFile lib e file = (Inl err, e\<lparr>ticks := Suc (ticks e)\<rparr>)"
  using assms(5)
  by (simp add: loadFile_def normalizePdfUri_content[OF assms(1-4)])

lemma pickLoop_Cons_loadFile:
  "pickLoop lib (file # rest) i items e =
     (case loadFile lib e file of
        (Inl err, e1) \<Rightarrow> (Inl err, e1)
      | (Inr (safeUri, pdf), e1) \<Rightarrow>
          pickLoop lib rest (i + 1)
            (items @ [\<lparr>itemId = numberToString (clock e1 (ticks e1)) @ js ''-'' @ numberToString i,
                       name = displayName file, uri = safeUri, pages = length pdf\<rparr>])
            (snd (Date_now e1)))"
  by (auto simp: loadFile_def documentAt_def Date_now_def displayName_def getPageCount_def
           split: prod.splits sum.splits)

lemma pickLoop_shape:
  "pickLoop lib assets i items e = (Inr items', e') \<Longrightarrow>
   \<exists>new. items' = items @ new \<and> length new = length assets"
proof (induction assets arbitrary: i items e)
  case Nil
  then show ?case by simp
next
  case (Cons f rest)
  from Cons.prems obtain i' x e2 where
    r: "pickLoop lib rest i' (items @ [x]) e2 = (Inr items', e')"
    by (auto simp: Let_def split: prod.splits sum.splits)
  from Cons.IH[OF r] obtain new where "items' = (items @ [x]) @ new" "length new = length rest"
    by blast
  then have "items' = items @ (x # new) \<and> length (x # new) = length (f # rest)"
    by simp
  then show ?case by blast
qed

lemma pickLoop_loaded:
  "pickLoop lib assets i items e = (Inr items', e') \<Longrightarrow>
   afterLoading lib e assets = Some e' \<and>
   (\<forall>k<length assets. \<exists>ek doc e1.
      afterLoading lib e (take k assets) = Some ek \<and>
      loadFile lib ek (assets ! k) = (Inr (uri (items' ! (length items + k)), doc), e1) \<and>
      name (items' ! (length items + k)) = displayName (assets ! k) \<and>
      pages (items' ! (length items + k)) = length doc)"
proof (induction assets arbitrary: i items e)
  case Nil
  then show ?case by simp
next
  case (Cons f rest)
  let ?P = "\<lambda>e assets items k. \<exists>ek doc e1.
      afterLoading lib e (take k assets) = Some ek \<and>
      loadFile lib ek (assets ! k) = (Inr (uri (items' ! (length items + k)), doc), e1) \<and>
      name (items' ! (length items + k)) = displayName (assets ! k) \<and>
      pages (items' ! (length items + k)) = length doc"
  from Cons.prems obtain u doc e1 where
    l: "loadFile lib e f = (Inr (u, doc), e1)"
    by (auto simp: pickLoop_Cons_loadFile simp del: pickLoop.simps split: prod.splits sum.splits)
  let ?x = "\<lparr>itemId = numberToString (clock e1 (ticks e1)) @ js ''-'' @ numberToString i,
             name = displayName f, uri = u, pages = length doc\<rparr>"
  have r: "pickLoop lib rest (i + 1) (items @ [?x]) (snd (Date_now e1)) = (Inr items', e')"
    using Cons.prems by (simp add: pickLoop_Cons_loadFile l del: pickLoop.simps)
  from pickLoop_shape[OF r] obtain new where n: "items' = (items @ [?x]) @ new"
    by blast
  then have x: "items' ! length items = ?x"
    by (simp add: nth_append)
  from Cons.IH[OF r] have
    a: "afterLoading lib (snd (Date_now e1)) rest = Some e'"
    and b: "\<forall>k<length rest. ?P (snd (Date_now e1)) rest (items @ [?x]) k"
    by blast+
  have "afterLoading lib e (f # rest) = Some e'"
    using a by (simp add: l)
  moreover have "?P e (f # rest) items k" if "k < length (f # rest)" for k
  proof (cases k)
    case 0
    then show ?thesis using l x by simp
  next
    case (Suc j)
    with that have "j < length rest" by simp
    with b have "?P (snd (Date_now e1)) rest (items @ [?x]) j" by blast
    then show ?thesis using Suc by (simp add: l)
  qed
  ultimately show ?case by blast
qed

lemma pickLoop_failed:
  "pickLoop lib assets i items e = (Inl err, e') \<Longrightarrow>
   \<exists>k<length assets. \<exists>ek. afterLoading lib e (take k assets) = Some ek \<and>
      loadFile lib ek (assets ! k) = (Inl err, e')"
proof (induction assets arbitrary: i items e)
  case Nil
  then show ?case by simp
next
  case (Cons f rest)
  show ?case
  proof (cases "loadFile lib e f")
    case (Pair r e1)
    show ?thesis
    proof (cases r)
      case (Inl err1)
      with Pair Cons.prems have "loadFile lib e f = (Inl err, e')"
        by (simp add: pickLoop_Cons_loadFile del: pickLoop.simps)
      then have "afterLoading lib e (take 0 (f # rest)) = Some e \<and>
          loadFile lib e ((f # rest) ! 0) = (Inl err, e')"
        by simp
      then show ?thesis by blast
    next
      case (Inr ud)
      obtain u doc where ud: "ud = (u, doc)" by (cases ud)
      from Pair Inr ud Cons.prems obtain x where
        "pickLoop lib rest (i + 1) (items @ [x]) (snd (Date_now e1)) = (Inl err, e')"
        by (simp add: pickLoop_Cons_loadFile del: pickLoop.simps)
      from Cons.IH[OF this] obtain k ek where
        k: "k < length rest" "afterLoading lib (snd (Date_now e1)) (take k rest) = Some ek"
          "loadFile lib ek (rest ! k) = (Inl err, e')"
        by blast
      then have "Suc k < length (f # rest) \<and>
          afterLoading lib e (take (Suc k) (f # rest)) = Some ek \<and>
          loadFile lib ek ((f # rest) ! Suc k) = (Inl err, e')"
        using Pair Inr by simp
      then show ?thesis by blast
    qed
  qed
qed

lemma pickLoop_fails_at:
  "k < length assets \<Longrightarrow> afterLoading lib e (take k assets) = Some ek \<Longrightarrow>
   loadFile lib ek (assets ! k) = (Inl err, e') \<Longrightarrow>
   pickLoop lib assets i items e = (Inl err, e')"
proof (induction assets arbitrary: i items e k)
  case Nil
  then show ?case by simp
next
  case (Cons f rest)
  show ?case
  proof (cases k)
    case 0
    with Cons.prems show ?thesis
      by (simp add: pickLoop_Cons_loadFile del: pickLoop.simps)
  next
    case (Suc j)
    with Cons.prems(2) obtain r e1 where
      l: "loadFile lib e f = (Inr r, e1)"
      and a: "afterLoading lib (snd (Date_now e1)) (take j rest) = Some ek"
      by (auto split: prod.splits sum.splits)
    obtain u doc where r: "r = (u, doc)" by (cases r)
    have j: "j < length rest" "loadFile lib ek (rest ! j) = (Inl err, e')"
      using Cons.prems(1,3) Suc by simp_all
    show ?thesis
      using Cons.IH[OF j(1) a j(2)]
      by (simp add: pickLoop_Cons_loadFile l r del: pickLoop.simps)
  qed
qed

lemma example_documents:
  "documentAt exampleLib exampleEnv (js ''file:///a.pdf'') = Inr [0x41, 0x42, 0x43]"
  "documentAt exampleLib exampleEnv (js ''file:///b.pdf'') = Inr [0x41, 0x42]"
  "documentAt exampleLib exampleEnv (js ''file:///bad.pdf'') = Inl (PdfError (js ''No PDF header found''))"
proof -
  have a: "base64ToUint8Array (js ''QUJD'') = Inr [0x41, 0x42, 0x43]"
    by code_simp
  have b: "base64ToUint8Array (js ''QUI='') = Inr [0x41, 0x42]"
    by code_simp
  have c: "base64ToUint8Array (js ''!'') = Inr []"
    by code_simp
  show "documentAt exampleLib exampleEnv (js ''file:///a.pdf'') = Inr [0x41, 0x42, 0x43]"
    by (simp add: documentAt_def readAsStringAsync_def exampleEnv_def exampleLib_def a)
  show "documentAt exampleLib exampleEnv (js ''file:///b.pdf'') = Inr [0x41, 0x42]"
    by (simp add: documentAt_def readAsStringAsync_def exampleEnv_def exampleLib_def b) (simp add: js_def)
  show "documentAt exampleLib exampleEnv (js ''file:///bad.pdf'') = Inl (PdfError (js ''No PDF header found''))"
    by (simp add: documentAt_def readAsStringAsync_def exampleEnv_def exampleLib_def c) (simp add: js_def)
qed

lemma example_plain: "plainUris exampleEnv assets"
  by (simp add: plainUris_def exampleEnv_def js_def)

lemma numberToString_examples:
  "numberToString 1700000000000 = js ''1700000000000''" "numberToString 0 = js ''0''"
  by (simp_all add: numberToString.simps digit_def js_def)

lemma android_tmp:
  "js ''file:///cache/'' @ js ''tmp_'' @ numberToString 1700000000000 @ js ''.pdf'' =
   js ''file:///cache/tmp_1700000000000.pdf''"
  by (simp add: numberToString_examples js_def)

lemma android_content:
  "startsWith (js ''content://docs/1'') (js ''content://'')"
  "startsWith (js ''content://docs/2'') (js ''content://'')"
  "startsWith (js ''content://docs/3'') (js ''content://'')"
  "js ''file:///cache/'' \<noteq> []"
  "js ''content://docs/2'' \<noteq> js ''content://docs/1''"
  "js ''content://docs/1'' \<noteq> js ''file:///cache/tmp_1700000000000.pdf''"
  "js ''content://docs/2'' \<noteq> js ''file:///cache/tmp_1700000000000.pdf''"
  "js ''content://docs/3'' \<noteq> js ''file:///cache/tmp_1700000000000.pdf''"
  by (simp_all add: startsWith_def js_def)

lemma android_env:
  "OS androidEnv = js ''android''"
  "clock androidEnv k = 1700000000000" "ticks androidEnv = 0"
  "cacheDirectory androidEnv = Some (js ''file:///cache/'')" "writeError androidEnv u = None"
  "files androidEnv (js ''content://docs/1'') = Inr (js ''QUJD'')"
  "files androidEnv (js ''content://docs/2'') = Inr (js ''QUI='')"
  "files androidEnv (js ''content://docs/3'') = Inl (FileSystemError (js ''not readable''))"
  by (simp_all add: androidEnv_def exampleEnv_def js_def)

lemma android_decoded:
  "base64ToUint8Array (js ''QUJD'') = Inr [0x41, 0x42, 0x43]"
  "base64ToUint8Array (js ''QUI='') = Inr [0x41, 0x42]"
  by code_simp+

lemma android_unreadable:
  "afterLoading exampleLib androidEnv [Asset (js ''content://docs/1'') (Some (js ''one.pdf''))] =
     Some (snd (Date_now (androidEnv\<lparr>ticks := Suc (ticks androidEnv),
        files := (files androidEnv)(js ''file:///cache/tmp_1700000000000.pdf'' := Inr (js ''QUJD''))\<rparr>)))"
  "loadFile exampleLib
     (snd (Date_now (androidEnv\<lparr>ticks := Suc (ticks androidEnv),
        files := (files androidEnv)(js ''file:///cache/tmp_1700000000000.pdf'' := Inr (js ''QUJD''))\<rparr>)))
     (Asset (js ''content://docs/3'') (Some (js ''three.pdf''))) =
   (Inl (FileSystemError (js ''not readable'')),
    (snd (Date_now (androidEnv\<lparr>ticks := Suc (ticks androidEnv),
        files := (files androidEnv)(js ''file:///cache/tmp_1700000000000.pdf'' := Inr (js ''QUJD''))\<rparr>)))
      \<lparr>ticks := Suc (ticks (snd (Date_now (androidEnv\<lparr>ticks := Suc (ticks androidEnv),
        files := (files androidEnv)(js ''file:///cache/tmp_1700000000000.pdf'' := Inr (js ''QUJD''))\<rparr>))))\<rparr>)"
proof -
  let ?A1 = "Asset (js ''content://docs/1'') (Some (js ''one.pdf''))"
  let ?tmp = "js ''file:///cache/tmp_1700000000000.pdf''"
  let ?e1 = "androidEnv\<lparr>ticks := Suc (ticks androidEnv),
               files := (files androidEnv)(?tmp := Inr (js ''QUJD''))\<rparr>"
  have l1: "loadFile exampleLib androidEnv ?A1 = (Inr (?tmp, [0x41, 0x42, 0x43]), ?e1)"
    by (rule loadFile_content[where dir = "js ''file:///cache/''" and bs = "[0x41, 0x42, 0x43]"])
       (simp_all add: android_env android_content android_tmp android_decoded exampleLib_def)
  show "afterLoading exampleLib androidEnv [?A1] = Some (snd (Date_now ?e1))"
    by (simp only: afterLoading.simps l1 prod.case sum.case)
  show "loadFile exampleLib (snd (Date_now ?e1)) (Asset (js ''content://docs/3'') (Some (js ''three.pdf''))) =
     (Inl (FileSystemError (js ''not readable'')),
      (snd (Date_now ?e1))\<lparr>ticks := Suc (ticks (snd (Date_now ?e1)))\<rparr>)"
    by (rule loadFile_content_unreadable[where dir = "js ''file:///cache/''"])
       (simp_all add: Date_now_def android_env android_content)
qed

text \<open>
  C3, as the code has it.  A file of a batch loads, or fails to load, on the platform
  as the files before it left it: its URI is normalised (on Android a \<^verbatim>\<open>content://\<close>
  URI is first copied into the cache directory), and the contents behind the normalised
  URI are read, decoded and parsed.  A batch is added all or nothing.  If a file fails
  to load after the files before it loaded, no item of the batch is added, those that
  loaded before it included: the session stays as it was and one alert carries the error
  of that file.  If every file loads, all are appended in batch order, each with the
  display name of its file, the URI that normalisation gave and the page count of the
  document loaded from there.  Every batch is of one of these two kinds.
\<close>

theorem pickPdf_all_or_nothing:
  "(k < length assets \<and> afterLoading lib e (take k assets) = Some ek \<and>
    loadFile lib ek (assets ! k) = (Inl err, e') \<longrightarrow>
      pickPdf lib (Picked assets) s e = (s, e', Some (LoadFailed err))) \<and>
   ((\<forall>k<length assets. \<exists>ek r e1.
        afterLoading lib e (take k assets) = Some ek \<and> loadFile lib ek (assets ! k) = (Inr r, e1)) \<longrightarrow>
      (\<exists>new e''. pickPdf lib (Picked assets) s e = (appendItems new s, e'', None) \<and>
         length new = length assets \<and>
         (\<forall>k<length assets. \<exists>ek doc e1.
            afterLoading lib e (take k assets) = Some ek \<and>
            loadFile lib ek (assets ! k) = (Inr (uri (new ! k), doc), e1) \<and>
            name (new ! k) = displayName (assets ! k) \<and> pages (new ! k) = length doc))) \<and>
   ((\<exists>k ek err e'. k < length assets \<and> afterLoading lib e (take k assets) = Some ek \<and>
        loadFile lib ek (assets ! k) = (Inl err, e')) \<or>
    (\<forall>k<length assets. \<exists>ek r e1.
        afterLoading lib e (take k assets) = Some ek \<and> loadFile lib ek (assets ! k) = (Inr r, e1)))"
proof -
  have ok: "\<exists>new e''. pickPdf lib (Picked assets) s e = (appendItems new s, e'', None) \<and>
         length new = length assets \<and>
         (\<forall>k<length assets. \<exists>ek doc e1.
            afterLoading lib e (take k assets) = Some ek \<and>
            loadFile lib ek (assets ! k) = (Inr (uri (new ! k), doc), e1) \<and>
            name (new ! k) = displayName (assets ! k) \<and> pages (new ! k) = length doc)"
    if p: "pickLoop lib assets 0 [] e = (Inr new, e'')" for new e''
  proof -
    from pickLoop_shape[OF p] have "length new = length assets" by simp
    moreover have "pickPdf lib (Picked assets) s e = (appendItems new s, e'', None)"
      by (simp add: pickPdf_def p)
    moreover from pickLoop_loaded[OF p] have "\<forall>k<length assets. \<exists>ek doc e1.
            afterLoading lib e (take k assets) = Some ek \<and>
            loadFile lib ek (assets ! k) = (Inr (uri (new ! k), doc), e1) \<and>
            name (new ! k) = displayName (assets ! k) \<and> pages (new ! k) = length doc"
      by simp
    ultimately show ?thesis by blast
  qed
  have 1: "pickPdf lib (Picked assets) s e = (s, e', Some (LoadFailed err))"
    if "k < length assets" "afterLoading lib e (take k assets) = Some ek"
      "loadFile lib ek (assets ! k) = (Inl err, e')"
    using pickLoop_fails_at[OF that, of 0 "[]"] by (simp add: pickPdf_def)
  have 2: "\<exists>new e''. pickPdf lib (Picked assets) s e = (appendItems new s, e'', None) \<and>
         length new = length assets \<and>
         (\<forall>k<length assets. \<exists>ek doc e1.
            afterLoading lib e (take k assets) = Some ek \<and>
            loadFile lib ek (assets ! k) = (Inr (uri (new ! k), doc), e1) \<and>
            name (new ! k) = displayName (assets ! k) \<and> pages (new ! k) = length doc)"
    if all: "\<forall>k<length assets. \<exists>ek r e1.
        afterLoading lib e (take k assets) = Some ek \<and> loadFile lib ek (assets ! k) = (Inr r, e1)"
  proof (cases "pickLoop lib assets 0 [] e")
    case (Pair r e'')
    show ?thesis
    proof (cases r)
      case (Inl err1)
      with Pair pickLoop_failed[of lib assets 0 "[]" e err1 e''] obtain k ek where
        "k < length assets" "afterLoading lib e (take k assets) = Some ek"
        "loadFile lib ek (assets ! k) = (Inl err1, e'')"
        by blast
      with all show ?thesis by fastforce
    next
      case (Inr new)
      with Pair show ?thesis by (intro ok) simp
    qed
  qed
  have 3: "(\<exists>k ek err e'. k < length assets \<and> afterLoading lib e (take k assets) = Some ek \<and>
        loadFile lib ek (assets ! k) = (Inl err, e')) \<or>
    (\<forall>k<length assets. \<exists>ek r e1.
        afterLoading lib e (take k assets) = Some ek \<and> loadFile lib ek (assets ! k) = (Inr r, e1))"
  proof (cases "pickLoop lib assets 0 [] e")
    case (Pair r e'')
    show ?thesis
    proof (cases r)
      case (Inl err1)
      with Pair pickLoop_failed[of lib assets 0 "[]" e err1 e''] show ?thesis by blast
    next
      case (Inr new)
      with Pair pickLoop_loaded[of lib assets 0 "[]" e new e''] show ?thesis by blast
    qed
  qed
  from 1 2 3 show ?thesis by blast
qed

theorem pickPdf_all_or_nothing_witness:
  "afterLoading exampleLib exampleEnv [Asset (js ''file:///a.pdf'') (Some (js ''a.pdf''))] =
     Some (snd (Date_now exampleEnv)) \<and>
   loadFile exampleLib (snd (Date_now exampleEnv)) (Asset (js ''file:///bad.pdf'') (Some (js ''bad.pdf''))) =
     (Inl (PdfError (js ''No PDF header found'')), snd (Date_now exampleEnv)) \<and>
   pickPdf exampleLib
     (Picked [Asset (js ''file:///a.pdf'') (Some (js ''a.pdf'')), Asset (js ''file:///bad.pdf'') (Some (js ''bad.pdf'')),
              Asset (js ''file:///b.pdf'') None]) initialApp exampleEnv =
     (initialApp, snd (Date_now exampleEnv), Some (LoadFailed (PdfError (js ''No PDF header found'')))) \<and>
   map name (data (fst (pickPdf exampleLib
     (Picked [Asset (js ''file:///a.pdf'') (Some (js ''a.pdf'')), Asset (js ''file:///b.pdf'') None])
     initialApp exampleEnv))) = [js ''a.pdf'', js ''unknown.pdf''] \<and>
   map pages (data (fst (pickPdf exampleLib
     (Picked [Asset (js ''file:///a.pdf'') (Some (js ''a.pdf'')), Asset (js ''file:///b.pdf'') None])
     initialApp exampleEnv))) = [3, 2] \<and>
   fst (pickPdf exampleLib
     (Picked [Asset (js ''content://docs/1'') (Some (js ''one.pdf'')),
              Asset (js ''content://docs/3'') (Some (js ''three.pdf''))]) initialApp androidEnv) = initialApp \<and>
   snd (snd (pickPdf exampleLib
     (Picked [Asset (js ''content://docs/1'') (Some (js ''one.pdf'')),
              Asset (js ''content://docs/3'') (Some (js ''three.pdf''))]) initialApp androidEnv)) =
     Some (LoadFailed (FileSystemError (js ''not readable'')))"
proof -
  let ?a = "Asset (js ''file:///a.pdf'') (Some (js ''a.pdf''))"
  let ?bad = "Asset (js ''file:///bad.pdf'') (Some (js ''bad.pdf''))"
  let ?b = "Asset (js ''file:///b.pdf'') None"
  let ?e1 = "snd (Date_now exampleEnv)"
  have la: "loadFile exampleLib exampleEnv ?a = (Inr (js ''file:///a.pdf'', [0x41, 0x42, 0x43]), exampleEnv)"
    by (simp add: loadFile_plain example_plain example_documents)
  have lbad: "loadFile exampleLib ?e1 ?bad = (Inl (PdfError (js ''No PDF header found'')), ?e1)"
    by (simp add: loadFile_plain example_plain example_documents Date_now_def plainUris_ticks
          documentAt_ticks)
  have lb: "loadFile exampleLib ?e1 ?b = (Inr (js ''file:///b.pdf'', [0x41, 0x42]), ?e1)"
    by (simp add: loadFile_plain example_plain example_documents Date_now_def plainUris_ticks
          documentAt_ticks)
  have aa: "afterLoading exampleLib exampleEnv [?a] = Some ?e1"
    by (simp add: la)
  have k1: "(1::nat) < length [?a, ?bad, ?b]" "take 1 [?a, ?bad, ?b] = [?a]" "[?a, ?bad, ?b] ! 1 = ?bad"
    by simp_all
  from pickPdf_all_or_nothing
    [of 1 "[?a, ?bad, ?b]" exampleLib exampleEnv ?e1 "PdfError (js ''No PDF header found'')" ?e1 initialApp]
  have 1: "pickPdf exampleLib (Picked [?a, ?bad, ?b]) initialApp exampleEnv =
      (initialApp, ?e1, Some (LoadFailed (PdfError (js ''No PDF header found''))))"
    unfolding k1 using aa lbad k1(1) by blast
  have all: "\<forall>k<length [?a, ?b]. \<exists>ek r e1.
        afterLoading exampleLib exampleEnv (take k [?a, ?b]) = Some ek \<and>
        loadFile exampleLib ek ([?a, ?b] ! k) = (Inr r, e1)"
  proof (intro allI impI)
    fix k assume "k < length [?a, ?b]"
    then consider "k = 0" | "k = 1" by fastforce
    then show "\<exists>ek r e1. afterLoading exampleLib exampleEnv (take k [?a, ?b]) = Some ek \<and>
        loadFile exampleLib ek ([?a, ?b] ! k) = (Inr r, e1)"
    proof cases
      case 1
      then show ?thesis using la by simp
    next
      case 2
      then show ?thesis using la lb by simp
    qed
  qed
  from pickPdf_all_or_nothing [of _ "[?a, ?b]" exampleLib exampleEnv _ _ _ initialApp] all
  obtain new e'' where n: "pickPdf exampleLib (Picked [?a, ?b]) initialApp exampleEnv = (appendItems new initialApp, e'', None)"
    "length new = length [?a, ?b]"
    "\<forall>k<length [?a, ?b]. \<exists>ek doc e1.
            afterLoading exampleLib exampleEnv (take k [?a, ?b]) = Some ek \<and>
            loadFile exampleLib ek ([?a, ?b] ! k) = (Inr (uri (new ! k), doc), e1) \<and>
            name (new ! k) = displayName ([?a, ?b] ! k) \<and> pages (new ! k) = length doc"
    by blast
  from n(2) obtain x y where xy: "new = [x, y]"
    by (cases new; cases "tl new") auto
  from n(3)[rule_format, of 0] la have x: "name x = js ''a.pdf''" "pages x = 3"
    by (auto simp: xy displayName_def)
  from n(3)[rule_format, of 1] la lb have y: "name y = js ''unknown.pdf''" "pages y = 2"
    by (auto simp: xy displayName_def)
  have 2: "map name (data (fst (pickPdf exampleLib (Picked [?a, ?b]) initialApp exampleEnv))) =
      [js ''a.pdf'', js ''unknown.pdf'']"
    "map pages (data (fst (pickPdf exampleLib (Picked [?a, ?b]) initialApp exampleEnv))) = [3, 2]"
    unfolding n(1) using x y by (simp_all add: xy appendItems_def setData_def initialApp_def)
  let ?A1 = "Asset (js ''content://docs/1'') (Some (js ''one.pdf''))"
  let ?A3 = "Asset (js ''content://docs/3'') (Some (js ''three.pdf''))"
  let ?f1 = "androidEnv\<lparr>ticks := Suc (ticks androidEnv),
               files := (files androidEnv)(js ''file:///cache/tmp_1700000000000.pdf'' := Inr (js ''QUJD''))\<rparr>"
  let ?f2 = "snd (Date_now ?f1)"
  let ?f3 = "?f2\<lparr>ticks := Suc (ticks ?f2)\<rparr>"
  have k3: "(1::nat) < length [?A1, ?A3]" "take 1 [?A1, ?A3] = [?A1]" "[?A1, ?A3] ! 1 = ?A3"
    by simp_all
  from pickPdf_all_or_nothing
    [of 1 "[?A1, ?A3]" exampleLib androidEnv ?f2 "FileSystemError (js ''not readable'')" ?f3 initialApp]
    k3(1) android_unreadable
  have 3: "pickPdf exampleLib (Picked [?A1, ?A3]) initialApp androidEnv =
      (initialApp, ?f3, Some (LoadFailed (FileSystemError (js ''not readable''))))"
    unfolding k3 by blast
  have 4: "fst (pickPdf exampleLib (Picked [?A1, ?A3]) initialApp androidEnv) = initialApp"
    "snd (snd (pickPdf exampleLib (Picked [?A1, ?A3]) initialApp androidEnv)) =
      Some (LoadFailed (FileSystemError (js ''not readable'')))"
    unfolding 3 by simp_all
  from aa lbad 1 2 4 show ?thesis by simp
qed

theorem pickPdf_batch_counterexample:
  "documentAt exampleLib exampleEnv (js ''file:///a.pdf'') = Inr [0x41, 0x42, 0x43] \<and>
   documentAt exampleLib exampleEnv (js ''file:///b.pdf'') = Inr [0x41, 0x42] \<and>
   documentAt exampleLib exampleEnv (js ''file:///bad.pdf'') = Inl (PdfError (js ''No PDF header found'')) \<and>
   fst (pickPdf exampleLib
     (Picked [Asset (js ''file:///a.pdf'') (Some (js ''a.pdf'')), Asset (js ''file:///bad.pdf'') (Some (js ''bad.pdf'')),
              Asset (js ''file:///b.pdf'') (Some (js ''b.pdf''))]) initialApp exampleEnv) = initialApp \<and>
   snd (snd (pickPdf exampleLib
     (Picked [Asset (js ''file:///a.pdf'') (Some (js ''a.pdf'')), Asset (js ''file:///bad.pdf'') (Some (js ''bad.pdf'')),
              Asset (js ''file:///b.pdf'') (Some (js ''b.pdf''))]) initialApp exampleEnv)) =
     Some (LoadFailed (PdfError (js ''No PDF header found'')))"
proof -
  let ?a = "Asset (js ''file:///a.pdf'') (Some (js ''a.pdf''))"
  let ?bad = "Asset (js ''file:///bad.pdf'') (Some (js ''bad.pdf''))"
  let ?b = "Asset (js ''file:///b.pdf'') (Some (js ''b.pdf''))"
  let ?e = "exampleEnv\<lparr>ticks := Suc (ticks exampleEnv)\<rparr>"
  let ?x = "\<lparr>itemId = numberToString (clock exampleEnv (ticks exampleEnv)) @ js ''-'' @ numberToString 0,
             name = displayName ?a, uri = assetUri ?a, pages = length [0x41, 0x42, 0x43 :: 8 word]\<rparr>"
  have 1: "pickLoop exampleLib [?a, ?bad, ?b] 0 [] exampleEnv =
           pickLoop exampleLib [?bad, ?b] (0 + 1) ([] @ [?x]) ?e"
    by (rule pickLoop_plain_step_ok) (simp_all add: example_plain example_documents)
  have 2: "pickLoop exampleLib [?bad, ?b] (0 + 1) ([] @ [?x]) ?e =
           (Inl (PdfError (js ''No PDF header found'')), ?e)"
    by (rule pickLoop_plain_step_fail)
       (simp_all add: plainUris_ticks example_plain documentAt_ticks example_documents)
  have "pickPdf exampleLib (Picked [?a, ?bad, ?b]) initialApp exampleEnv =
        (initialApp, ?e, Some (LoadFailed (PdfError (js ''No PDF header found''))))"
    by (simp only: pickPdf_def pickResult.case 1 2 prod.case sum.case)
  then show ?thesis
    by (simp add: example_documents)
qed

text \<open>
  C4.  The id of a new item is the clock reading and the index in the batch.  Two
  batches added at the same clock reading get the same ids: here two batches of one file
  each, after which the session holds two items with one id, and removing that id
  removes both.
\<close>

theorem pickPdf_same_instant_ids:
  "(let (s1, e1, a1) = pickPdf exampleLib (Picked [Asset (js ''file:///a.pdf'') (Some (js ''a.pdf''))])
                         initialApp exampleEnv;
        (s2, e2, a2) = pickPdf exampleLib (Picked [Asset (js ''file:///b.pdf'') (Some (js ''b.pdf''))]) s1 e1
    in a1 = None \<and> a2 = None \<and>
       map name (data s2) = [js ''a.pdf'', js ''b.pdf''] \<and>
       map itemId (data s2) = [js ''1700000000000-0'', js ''1700000000000-0''] \<and>
       data (removePdf (js ''1700000000000-0'') RemoveConfirm s2) = [])"
proof -
  let ?a = "Asset (js ''file:///a.pdf'') (Some (js ''a.pdf''))"
  let ?b = "Asset (js ''file:///b.pdf'') (Some (js ''b.pdf''))"
  let ?e = "exampleEnv\<lparr>ticks := Suc (ticks exampleEnv)\<rparr>"
  let ?f = "?e\<lparr>ticks := Suc (ticks ?e)\<rparr>"
  let ?x = "\<lparr>itemId = js ''1700000000000-0'', name = js ''a.pdf'', uri = js ''file:///a.pdf'', pages = 3\<rparr>"
  let ?y = "\<lparr>itemId = js ''1700000000000-0'', name = js ''b.pdf'', uri = js ''file:///b.pdf'', pages = 2\<rparr>"
  have id: "numberToString (clock exampleEnv (ticks exampleEnv)) @ js ''-'' @ numberToString 0 =
            js ''1700000000000-0''"
    "numberToString (clock ?e (ticks ?e)) @ js ''-'' @ numberToString 0 = js ''1700000000000-0''"
    by (simp_all add: exampleEnv_def numberToString_examples) (simp_all add: js_def)
  have "pickLoop exampleLib [?a] 0 [] exampleEnv =
        pickLoop exampleLib [] (0 + 1)
          ([] @ [\<lparr>itemId = numberToString (clock exampleEnv (ticks exampleEnv)) @ js ''-'' @ numberToString 0,
                   name = displayName ?a, uri = assetUri ?a, pages = length [0x41, 0x42, 0x43 :: 8 word]\<rparr>]) ?e"
    by (rule pickLoop_plain_step_ok) (simp_all add: example_plain example_documents)
  then have 1: "pickLoop exampleLib [?a] 0 [] exampleEnv = (Inr [?x], ?e)"
    unfolding id by (simp add: displayName_def)
  have "pickLoop exampleLib [?b] 0 [] ?e =
        pickLoop exampleLib [] (0 + 1)
          ([] @ [\<lparr>itemId = numberToString (clock ?e (ticks ?e)) @ js ''-'' @ numberToString 0,
                   name = displayName ?b, uri = assetUri ?b, pages = length [0x41, 0x42 :: 8 word]\<rparr>]) ?f"
    by (rule pickLoop_plain_step_ok)
       (simp_all add: plainUris_ticks example_plain documentAt_ticks example_documents)
  then have 2: "pickLoop exampleLib [?b] 0 [] ?e = (Inr [?y], ?f)"
    unfolding id by (simp add: displayName_def)
  have p1: "pickPdf exampleLib (Picked [?a]) initialApp exampleEnv = (appendItems [?x] initialApp, ?e, None)"
    by (simp only: pickPdf_def pickResult.case 1 prod.case sum.case)
  have p2: "pickPdf exampleLib (Picked [?b]) (appendItems [?x] initialApp) ?e =
            (appendItems [?y] (appendItems [?x] initialApp), ?f, None)"
    by (simp only: pickPdf_def pickResult.case 2 prod.case sum.case)
  have d: "data (appendItems [?y] (appendItems [?x] initialApp)) = [?x, ?y]"
    by (simp add: appendItems_def setData_def initialApp_def)
  show ?thesis
    unfolding p1 Let_def prod.case p2 by (simp add: d removePdf_def setData_def)
qed

subsection \<open>Removal and the total\<close>

lemma numberToString_1: "numberToString (Suc 0) = js ''1''"
  by (subst numberToString.simps) (simp add: digit_def js_def)

lemma header_decoded:
  "base64ToUint8Array (js ''JQ=='') = Inr [0x25]"
  "base64ToUint8Array (js ''JUFCQ0RFRkdISUo='') =
     Inr [0x25, 0x41, 0x42, 0x43, 0x44, 0x45, 0x46, 0x47, 0x48, 0x49, 0x4A]"
  "base64ToUint8Array (js ''JUFCQ0RF'') = Inr [0x25, 0x41, 0x42, 0x43, 0x44, 0x45]"
  by code_simp+

lemma header_files:
  "files headerEnv (js ''file:///empty1.pdf'') = Inr (js ''JQ=='')"
  "files headerEnv (js ''file:///empty2.pdf'') = Inr (js ''JQ=='')"
  "files headerEnv (js ''file:///ten.pdf'') = Inr (js ''JUFCQ0RFRkdISUo='')"
  "files headerEnv (js ''file:///five.pdf'') = Inr (js ''JUFCQ0RF'')"
  by (simp_all add: headerEnv_def js_def)

lemma header_documents:
  "documentAt headerLib headerEnv (js ''file:///empty1.pdf'') = Inr []"
  "documentAt headerLib headerEnv (js ''file:///empty2.pdf'') = Inr []"
  "documentAt headerLib headerEnv (js ''file:///ten.pdf'') =
     Inr [0x41, 0x42, 0x43, 0x44, 0x45, 0x46, 0x47, 0x48, 0x49, 0x4A]"
  "documentAt headerLib headerEnv (js ''file:///five.pdf'') = Inr [0x41, 0x42, 0x43, 0x44, 0x45]"
  by (simp_all add: documentAt_def readAsStringAsync_def header_files header_decoded headerLib_def)

lemma header_plain: "plainUris headerEnv assets"
  by (simp add: plainUris_def headerEnv_def exampleEnv_def js_def)

lemma header_env:
  "clock headerEnv k = 1700000000000" "ticks headerEnv = 0"
  "cacheDirectory headerEnv = Some (js ''file:///cache/'')" "writeError headerEnv u = None"
  by (simp_all add: headerEnv_def exampleEnv_def)

lemma header_id:
  "numberToString 1700000000000 @ js ''-'' @ numberToString 0 = js ''1700000000000-0''"
  "numberToString 1700000000000 @ js ''-'' @ numberToString (Suc 0) = js ''1700000000000-1''"
  by (simp_all add: numberToString_examples numberToString_1 js_def)

lemma tenPick_eval:
  "tenPick =
     (appendItems
        [\<lparr>itemId = js ''1700000000000-0'', name = js ''ten.pdf'', uri = js ''file:///ten.pdf'', pages = 10\<rparr>]
        initialApp,
      headerEnv\<lparr>ticks := 1\<rparr>, None)"
  by (simp add: tenPick_def pickPdf_def pickLoop_Cons_loadFile loadFile_plain header_plain
        plainUris_ticks documentAt_ticks header_documents Date_now_def displayName_def header_env
        header_id del: pickLoop.simps(2))
     (simp add: eval_nat_numeral)

lemma fivePick_eval:
  "fivePick =
     (appendItems
        [\<lparr>itemId = js ''1700000000000-0'', name = js ''five.pdf'', uri = js ''file:///five.pdf'', pages = 5\<rparr>]
        (fst tenPick),
      headerEnv\<lparr>ticks := 2\<rparr>, None)"
  by (simp add: fivePick_def tenPick_eval pickPdf_def pickLoop_Cons_loadFile loadFile_plain header_plain
        plainUris_ticks documentAt_ticks header_documents Date_now_def displayName_def header_env
        header_id del: pickLoop.simps(2))
     (simp add: eval_nat_numeral)

text \<open>
  C6.  The total is the sum of the page counts of the current items.  The example of the
  specification, a total of 10 that becomes 15 when an item of 5 pages is added and 10
  again when that item is removed, fails where two items share an id.  A document of ten
  pages and one of five are added in two batches at the same clock reading, so both get
  the id \<open>1700000000000-0\<close>: the total is 10, then 15, and removing the item of five
  pages removes the other one with it and leaves the total 0.
\<close>

theorem removePdf_shared_id_total:
  "snd (snd tenPick) = None \<and> snd (snd fivePick) = None \<and>
   totalPages (data (fst tenPick)) = 10 \<and>
   map name (data (fst fivePick)) = [js ''ten.pdf'', js ''five.pdf''] \<and>
   map pages (data (fst fivePick)) = [10, 5] \<and>
   totalPages (data (fst fivePick)) = 15 \<and>
   map itemId (data (fst fivePick)) = [js ''1700000000000-0'', js ''1700000000000-0''] \<and>
   totalPages (data (removePdf (itemId (data (fst fivePick) ! 1)) RemoveConfirm (fst fivePick))) = 0"
  by (simp add: fivePick_eval tenPick_eval appendItems_def setData_def initialApp_def removePdf_def
        totalPages_def)

subsection \<open>Assembly\<close>

lemma copyPages_all: "copyPages pdf (getPageIndices pdf) = pdf"
  by (simp add: copyPages_def getPageIndices_def map_nth)

lemma foldl_addPage: "foldl addPage mergedPdf ps = mergedPdf @ ps"
  by (induction ps arbitrary: mergedPdf) (simp_all add: addPage_def)

lemma mergeLoop_step:
  "sourceDocument lib e item = Inr doc \<Longrightarrow>
   mergeLoop lib e (item # rest) mergedPdf = mergeLoop lib e rest (mergedPdf @ doc)"
  by (auto simp: sourceDocument_def documentAt_def copyPages_all foldl_addPage split: sum.splits)

lemma mergeLoop_success:
  "list_all2 (\<lambda>item doc. sourceDocument lib e item = Inr doc) d docs \<Longrightarrow>
   mergeLoop lib e d mergedPdf = Inr (mergedPdf @ concat docs)"
proof (induction d docs arbitrary: mergedPdf rule: list_all2_induct)
  case Nil
  then show ?case by simp
next
  case (Cons item d doc docs)
  then show ?case by (simp add: mergeLoop_step del: mergeLoop.simps)
qed

lemma concat_nth_offset:
  "i < length xss \<Longrightarrow> k < length (xss ! i) \<Longrightarrow>
   concat xss ! (sum_list (map length (take i xss)) + k) = xss ! i ! k"
proof (induction xss arbitrary: i)
  case Nil
  then show ?case by simp
next
  case (Cons xs xss)
  show ?case
  proof (cases i)
    case 0
    with Cons.prems show ?thesis by (simp add: nth_append)
  next
    case (Suc j)
    with Cons.prems have "j < length xss" "k < length (xss ! j)" by simp_all
    then have "concat xss ! (sum_list (map length (take j xss)) + k) = xss ! j ! k"
      by (rule Cons.IH)
    then show ?thesis using Suc by (simp add: nth_append add.assoc)
  qed
qed

lemma addDefaultPage_pages:
  "addDefaultPage lib pdf = (if pdf = [] then [blankPage lib] else pdf)"
  by (simp add: addDefaultPage_def getPageCount_def addPage_def)

lemma buildMergedPdf_written:
  assumes "list_all2 (\<lambda>item doc. sourceDocument lib e item = Inr doc) d docs"
    and "(case cacheDirectory e of Some c \<Rightarrow> Some c | None \<Rightarrow> documentDirectory e) = Some dr"
      "dr \<noteq> []"
    and "writeError e (dr @ finalName) = None"
  shows "buildMergedPdf lib d finalName e =
      (Inr (dr @ finalName),
       e\<lparr>files := (files e)(dr @ finalName :=
            Inr (uint8ArrayToBase64 (serialize lib (addDefaultPage lib (concat docs)))))\<rparr>)"
proof -
  have m: "mergeLoop lib e d [] = Inr (concat docs)"
    using mergeLoop_success[OF assms(1), of "[]"] by simp
  show ?thesis
    using assms(2-4) by (simp add: buildMergedPdf_def m writeAsStringAsync_def save_def)
qed

lemma documentAt_written:
  "documentAt lib (e\<lparr>files := (files e)(u := Inr (uint8ArrayToBase64 bs))\<rparr>) u = load lib bs"
  by (simp add: documentAt_def readAsStringAsync_def decode_encode)

lemma emptyPick_eval:
  "emptyPick =
     (appendItems
        [\<lparr>itemId = js ''1700000000000-0'', name = js ''empty1.pdf'', uri = js ''file:///empty1.pdf'', pages = 0\<rparr>,
         \<lparr>itemId = js ''1700000000000-1'', name = js ''empty2.pdf'', uri = js ''file:///empty2.pdf'', pages = 0\<rparr>]
        initialApp,
      headerEnv\<lparr>ticks := 2\<rparr>, None)"
  by (simp add: emptyPick_def pickPdf_def pickLoop_Cons_loadFile loadFile_plain header_plain
        plainUris_ticks documentAt_ticks header_documents Date_now_def displayName_def header_env
        header_id del: pickLoop.simps(2))

lemma header_names:
  "js ''file:///cache/'' @ js ''empty1_merged.pdf'' = js ''file:///cache/empty1_merged.pdf''"
  "js ''file:///cache/'' \<noteq> []"
  by (simp_all add: js_def)

lemma emptyPick_press:
  "onPressMerge (fst emptyPick) = ConfirmMerge (js ''empty1_merged.pdf'') 2 0"
proof -
  have n: "getDefaultMergedName
      [\<lparr>itemId = js ''1700000000000-0'', name = js ''empty1.pdf'', uri = js ''file:///empty1.pdf'', pages = 0\<rparr>,
       \<lparr>itemId = js ''1700000000000-1'', name = js ''empty2.pdf'', uri = js ''file:///empty2.pdf'', pages = 0\<rparr>] =
      js ''empty1_merged.pdf''"
    by (simp add: getDefaultMergedName_def js_def ieq_def)
  have t: "trim (js ''empty1_merged.pdf'') \<noteq> []"
    by (simp add: trim_def js_def isWhiteSpace_def)
  show ?thesis
    by (simp add: emptyPick_eval onPressMerge_def appendItems_def setData_def initialApp_def n t
          totalPages_def MAX_TOTAL_PAGES_def)
qed

text \<open>
  C1, as the code has it.  Let every item of the list have a source that loads, let the
  output be writable, and let the library read back the document it writes.  Then the
  document in the output file consists of the pages of the first item's source document,
  then those of the second, and so on, each document's pages in their order and
  unchanged, and of nothing else, except that an output without any page is saved with
  one blank page.  So with \<open>q1, ..., qn\<close> the page counts of the source documents the
  output has \<open>q1 + ... + qn\<close> pages, or one page if that sum is 0, and page \<open>k\<close> of
  item \<open>i\<close> is at position \<open>q1 + ... + q(i-1) + k\<close>.  Where every item records the page
  count of its source, the same holds of the recorded counts \<open>p1, ..., pn\<close>.
\<close>

theorem buildMergedPdf_pages:
  assumes docs: "list_all2 (\<lambda>item doc. sourceDocument lib e item = Inr doc) d docs"
    and dir: "(case cacheDirectory e of Some c \<Rightarrow> Some c | None \<Rightarrow> documentDirectory e) = Some dr"
      "dr \<noteq> []"
    and wr: "writeError e (dr @ finalName) = None"
    and reload: "load lib (serialize lib (addDefaultPage lib (concat docs))) =
                 Inr (addDefaultPage lib (concat docs))"
  shows "fst (buildMergedPdf lib d finalName e) = Inr (dr @ finalName) \<and>
         documentAt lib (snd (buildMergedPdf lib d finalName e)) (dr @ finalName) =
           Inr (addDefaultPage lib (concat docs)) \<and>
         addDefaultPage lib (concat docs) =
           (if concat docs = [] then [blankPage lib] else concat docs) \<and>
         length (addDefaultPage lib (concat docs)) =
           (if sum_list (map length docs) = 0 then 1 else sum_list (map length docs)) \<and>
         (\<forall>i<length docs. \<forall>k<length (docs ! i).
            addDefaultPage lib (concat docs) ! (sum_list (map length (take i docs)) + k) = docs ! i ! k) \<and>
         (list_all2 (\<lambda>item doc. pages item = length doc) d docs \<longrightarrow>
            length (addDefaultPage lib (concat docs)) =
              (if sum_list (map pages d) = 0 then 1 else sum_list (map pages d)) \<and>
            (\<forall>i<length d. \<forall>k<pages (d ! i).
               addDefaultPage lib (concat docs) ! (sum_list (map pages (take i d)) + k) = docs ! i ! k))"
proof -
  let ?out = "addDefaultPage lib (concat docs)"
  note b = buildMergedPdf_written[OF docs dir wr]
  have 1: "fst (buildMergedPdf lib d finalName e) = Inr (dr @ finalName)"
    by (simp add: b)
  have 2: "documentAt lib (snd (buildMergedPdf lib d finalName e)) (dr @ finalName) = Inr ?out"
    unfolding b snd_conv documentAt_written by (rule reload)
  have 3: "?out = (if concat docs = [] then [blankPage lib] else concat docs)"
    by (rule addDefaultPage_pages)
  have lc: "length (concat docs) = sum_list (map length docs)"
    by (simp add: length_concat)
  have 4: "length ?out = (if sum_list (map length docs) = 0 then 1 else sum_list (map length docs))"
    unfolding 3 using lc by auto
  have 5: "?out ! (sum_list (map length (take i docs)) + k) = docs ! i ! k"
    if "i < length docs" "k < length (docs ! i)" for i k
  proof -
    from that have "docs ! i \<noteq> []" by auto
    with that(1) have "concat docs \<noteq> []" using nth_mem[of i docs] by auto
    then have "?out = concat docs" by (simp only: 3 if_False)
    then show ?thesis using that by (simp only: concat_nth_offset)
  qed
  have 6: "length ?out = (if sum_list (map pages d) = 0 then 1 else sum_list (map pages d)) \<and>
            (\<forall>i<length d. \<forall>k<pages (d ! i).
               ?out ! (sum_list (map pages (take i d)) + k) = docs ! i ! k)"
    if p: "list_all2 (\<lambda>item doc. pages item = length doc) d docs"
  proof -
    have pl: "map pages d = map length docs"
      using p by (induction d docs rule: list_all2_induct) simp_all
    have len: "length d = length docs"
      using p by (rule list_all2_lengthD)
    have t: "map pages (take i d) = map length (take i docs)" for i
      using pl by (simp add: take_map[symmetric])
    have n: "pages (d ! i) = length (docs ! i)" if "i < length d" for i
      using pl that len by (metis nth_map)
    show ?thesis
      using 4 5 by (simp add: pl t n len)
  qed
  from 1 2 3 4 5 6 show ?thesis by blast
qed

theorem buildMergedPdf_pages_witness:
  "list_all2 (\<lambda>item doc. sourceDocument exampleLib exampleEnv item = Inr doc)
     [exampleItem ''1-0'' ''a.pdf'' 3, exampleItem ''1-1'' ''b.pdf'' 2] [[0x41, 0x42, 0x43], [0x41, 0x42]] \<and>
   list_all2 (\<lambda>item doc. pages item = length doc)
     [exampleItem ''1-0'' ''a.pdf'' 3, exampleItem ''1-1'' ''b.pdf'' 2] [[0x41, 0x42, 0x43], [0x41, 0x42 :: 8 word]] \<and>
   fst (buildMergedPdf exampleLib [exampleItem ''1-0'' ''a.pdf'' 3, exampleItem ''1-1'' ''b.pdf'' 2]
          (js ''out.pdf'') exampleEnv) = Inr (js ''file:///cache/out.pdf'') \<and>
   documentAt exampleLib
     (snd (buildMergedPdf exampleLib [exampleItem ''1-0'' ''a.pdf'' 3, exampleItem ''1-1'' ''b.pdf'' 2]
          (js ''out.pdf'') exampleEnv)) (js ''file:///cache/out.pdf'') =
     Inr [0x41, 0x42, 0x43, 0x41, 0x42] \<and>
   length (addDefaultPage exampleLib (concat [[0x41, 0x42, 0x43], [0x41, 0x42]])) = 3 + 2"
proof -
  let ?d = "[exampleItem ''1-0'' ''a.pdf'' 3, exampleItem ''1-1'' ''b.pdf'' 2]"
  let ?docs = "[[0x41, 0x42, 0x43], [0x41, 0x42 :: 8 word]]"
  have docs: "list_all2 (\<lambda>item doc. sourceDocument exampleLib exampleEnv item = Inr doc) ?d ?docs"
    using example_documents(1,2) by (simp add: sourceDocument_def exampleItem_def js_def)
  have p: "list_all2 (\<lambda>item doc. pages item = length doc) ?d ?docs"
    by (simp add: exampleItem_def)
  have dir: "(case cacheDirectory exampleEnv of Some c \<Rightarrow> Some c | None \<Rightarrow> documentDirectory exampleEnv) =
      Some (js ''file:///cache/'')" "js ''file:///cache/'' \<noteq> []"
    by (simp_all add: exampleEnv_def js_def)
  have wr: "writeError exampleEnv (js ''file:///cache/'' @ js ''out.pdf'') = None"
    by (simp add: exampleEnv_def)
  have n: "js ''file:///cache/'' @ js ''out.pdf'' = js ''file:///cache/out.pdf''"
    by (simp add: js_def)
  have s: "addDefaultPage exampleLib (concat ?docs) = [0x41, 0x42, 0x43, 0x41, 0x42]"
    by (simp add: addDefaultPage_def getPageCount_def)
  have reload: "load exampleLib (serialize exampleLib (addDefaultPage exampleLib (concat ?docs))) =
      Inr (addDefaultPage exampleLib (concat ?docs))"
    unfolding s by (simp add: exampleLib_def)
  from buildMergedPdf_pages [OF docs dir wr reload, unfolded n s] docs p show ?thesis
    unfolding s by simp
qed

theorem buildMergedPdf_empty_counterexample:
  "snd (snd emptyPick) = None \<and>
   map pages (data (fst emptyPick)) = [0, 0] \<and>
   onPressMerge (fst emptyPick) = ConfirmMerge (js ''empty1_merged.pdf'') 2 0 \<and>
   fst (buildMergedPdf headerLib (data (fst emptyPick)) (js ''empty1_merged.pdf'') (fst (snd emptyPick))) =
     Inr (js ''file:///cache/empty1_merged.pdf'') \<and>
   documentAt headerLib
     (snd (buildMergedPdf headerLib (data (fst emptyPick)) (js ''empty1_merged.pdf'') (fst (snd emptyPick))))
     (js ''file:///cache/empty1_merged.pdf'') = Inr [0x20]"
proof -
  let ?x = "\<lparr>itemId = js ''1700000000000-0'', name = js ''empty1.pdf'', uri = js ''file:///empty1.pdf'', pages = 0\<rparr>"
  let ?y = "\<lparr>itemId = js ''1700000000000-1'', name = js ''empty2.pdf'', uri = js ''file:///empty2.pdf'', pages = 0\<rparr>"
  let ?e = "headerEnv\<lparr>ticks := 2\<rparr>"
  have d: "data (fst emptyPick) = [?x, ?y]" "fst (snd emptyPick) = ?e" "snd (snd emptyPick) = None"
    by (simp_all add: emptyPick_eval appendItems_def setData_def initialApp_def)
  have docs: "list_all2 (\<lambda>item doc. sourceDocument headerLib ?e item = Inr doc) [?x, ?y] [[], []]"
    by (simp add: sourceDocument_def documentAt_ticks header_documents)
  have dir: "(case cacheDirectory ?e of Some c \<Rightarrow> Some c | None \<Rightarrow> documentDirectory ?e) =
      Some (js ''file:///cache/'')"
    by (simp add: header_env)
  have wr: "writeError ?e (js ''file:///cache/'' @ js ''empty1_merged.pdf'') = None"
    by (simp add: header_env)
  have b: "buildMergedPdf headerLib [?x, ?y] (js ''empty1_merged.pdf'') ?e =
      (Inr (js ''file:///cache/empty1_merged.pdf''),
       ?e\<lparr>files := (files ?e)(js ''file:///cache/empty1_merged.pdf'' :=
            Inr (uint8ArrayToBase64 (serialize headerLib (addDefaultPage headerLib (concat [[], []])))))\<rparr>)"
    using buildMergedPdf_written[OF docs dir header_names(2) wr] unfolding header_names(1) .
  have l: "load headerLib (serialize headerLib (addDefaultPage headerLib (concat [[], []]))) = Inr [0x20]"
    by (simp add: headerLib_def addDefaultPage_def getPageCount_def addPage_def)
  show ?thesis
    unfolding d b fst_conv snd_conv documentAt_written l
    using emptyPick_press by (simp add: d)
qed

lemma androidPick_eval:
  "fst androidPick =
     appendItems
        [\<lparr>itemId = js ''1700000000000-0'', name = js ''one.pdf'',
           uri = js ''file:///cache/tmp_1700000000000.pdf'', pages = 3\<rparr>,
         \<lparr>itemId = js ''1700000000000-1'', name = js ''two.pdf'',
           uri = js ''file:///cache/tmp_1700000000000.pdf'', pages = 2\<rparr>]
        initialApp"
  "snd (snd androidPick) = None"
  "files (fst (snd androidPick)) (js ''file:///cache/tmp_1700000000000.pdf'') = Inr (js ''QUI='')"
  "cacheDirectory (fst (snd androidPick)) = Some (js ''file:///cache/'')"
  "writeError (fst (snd androidPick)) u = None"
proof -
  let ?A1 = "Asset (js ''content://docs/1'') (Some (js ''one.pdf''))"
  let ?A2 = "Asset (js ''content://docs/2'') (Some (js ''two.pdf''))"
  let ?tmp = "js ''file:///cache/tmp_1700000000000.pdf''"
  let ?e1 = "androidEnv\<lparr>ticks := Suc (ticks androidEnv),
               files := (files androidEnv)(?tmp := Inr (js ''QUJD''))\<rparr>"
  let ?e2 = "snd (Date_now ?e1)"
  let ?e3 = "?e2\<lparr>ticks := Suc (ticks ?e2), files := (files ?e2)(?tmp := Inr (js ''QUI=''))\<rparr>"
  have l1: "loadFile exampleLib androidEnv ?A1 = (Inr (?tmp, [0x41, 0x42, 0x43]), ?e1)"
    by (rule loadFile_content[where dir = "js ''file:///cache/''" and bs = "[0x41, 0x42, 0x43]"])
       (simp_all add: android_env android_content android_tmp android_decoded exampleLib_def)
  have l2: "loadFile exampleLib ?e2 ?A2 = (Inr (?tmp, [0x41, 0x42]), ?e3)"
    by (rule loadFile_content[where dir = "js ''file:///cache/''" and bs = "[0x41, 0x42]"])
       (simp_all add: Date_now_def android_env android_content android_tmp android_decoded exampleLib_def)
  have c: "clock ?e1 (ticks ?e1) = 1700000000000" "clock ?e3 (ticks ?e3) = 1700000000000"
    by (simp_all add: android_env Date_now_def)
  have p: "pickLoop exampleLib [?A1, ?A2] 0 [] androidEnv =
      (Inr [\<lparr>itemId = js ''1700000000000-0'', name = js ''one.pdf'', uri = ?tmp, pages = 3\<rparr>,
            \<lparr>itemId = js ''1700000000000-1'', name = js ''two.pdf'', uri = ?tmp, pages = 2\<rparr>],
       snd (Date_now ?e3))"
    unfolding pickLoop_Cons_loadFile l1 l2 prod.case sum.case c pickLoop.simps(1)
    by (simp add: displayName_def header_id)
  have a: "androidPick =
      (appendItems
        [\<lparr>itemId = js ''1700000000000-0'', name = js ''one.pdf'', uri = ?tmp, pages = 3\<rparr>,
         \<lparr>itemId = js ''1700000000000-1'', name = js ''two.pdf'', uri = ?tmp, pages = 2\<rparr>]
        initialApp,
       snd (Date_now ?e3), None)"
    by (simp only: androidPick_def pickPdf_def pickResult.case p prod.case sum.case)
  show "fst androidPick =
     appendItems
        [\<lparr>itemId = js ''1700000000000-0'', name = js ''one.pdf'', uri = ?tmp, pages = 3\<rparr>,
         \<lparr>itemId = js ''1700000000000-1'', name = js ''two.pdf'', uri = ?tmp, pages = 2\<rparr>]
        initialApp"
    by (simp add: a)
  show "snd (snd androidPick) = None"
    by (simp add: a)
  show "files (fst (snd androidPick)) ?tmp = Inr (js ''QUI='')"
    by (simp add: a Date_now_def)
  show "cacheDirectory (fst (snd androidPick)) = Some (js ''file:///cache/'')"
    by (simp add: a Date_now_def android_env)
  show "writeError (fst (snd androidPick)) u = None"
    by (simp add: a Date_now_def android_env)
qed

lemma android_names:
  "js ''file:///cache/'' @ js ''one_merged.pdf'' = js ''file:///cache/one_merged.pdf''"
  by (simp add: js_def)

text \<open>
  An item need not record the page count of its source.  On Android the copy of a
  \<^verbatim>\<open>content://\<close> file is named after the clock reading alone (line 46), so two files
  of one batch copied at the same reading share one copy, the second overwriting the
  first: the session records 3 and 2 pages, total 5, both items point to the document of
  2 pages, and the merged document has 4 pages.
\<close>

lemma androidPick_shared_copy:
  "snd (snd androidPick) = None \<and>
   map name (data (fst androidPick)) = [js ''one.pdf'', js ''two.pdf''] \<and>
   map uri (data (fst androidPick)) =
     [js ''file:///cache/tmp_1700000000000.pdf'', js ''file:///cache/tmp_1700000000000.pdf''] \<and>
   map pages (data (fst androidPick)) = [3, 2] \<and>
   totalPages (data (fst androidPick)) = 5 \<and>
   fst (buildMergedPdf exampleLib (data (fst androidPick)) (js ''one_merged.pdf'') (fst (snd androidPick))) =
     Inr (js ''file:///cache/one_merged.pdf'') \<and>
   documentAt exampleLib
     (snd (buildMergedPdf exampleLib (data (fst androidPick)) (js ''one_merged.pdf'') (fst (snd androidPick))))
     (js ''file:///cache/one_merged.pdf'') = Inr [0x41, 0x42, 0x41, 0x42]"
proof -
  let ?x = "\<lparr>itemId = js ''1700000000000-0'', name = js ''one.pdf'',
           uri = js ''file:///cache/tmp_1700000000000.pdf'', pages = 3\<rparr>"
  let ?y = "\<lparr>itemId = js ''1700000000000-1'', name = js ''two.pdf'',
           uri = js ''file:///cache/tmp_1700000000000.pdf'', pages = 2\<rparr>"
  let ?e = "fst (snd androidPick)"
  have d: "data (fst androidPick) = [?x, ?y]"
    by (simp add: androidPick_eval(1) appendItems_def setData_def initialApp_def)
  have docs: "list_all2 (\<lambda>item doc. sourceDocument exampleLib ?e item = Inr doc) [?x, ?y]
      [[0x41, 0x42], [0x41, 0x42]]"
    by (simp add: sourceDocument_def documentAt_def readAsStringAsync_def androidPick_eval(3)
          android_decoded exampleLib_def)
  have dir: "(case cacheDirectory ?e of Some c \<Rightarrow> Some c | None \<Rightarrow> documentDirectory ?e) =
      Some (js ''file:///cache/'')"
    by (simp add: androidPick_eval(4))
  have wr: "writeError ?e (js ''file:///cache/'' @ js ''one_merged.pdf'') = None"
    by (rule androidPick_eval(5))
  have b: "buildMergedPdf exampleLib [?x, ?y] (js ''one_merged.pdf'') ?e =
      (Inr (js ''file:///cache/one_merged.pdf''),
       ?e\<lparr>files := (files ?e)(js ''file:///cache/one_merged.pdf'' :=
            Inr (uint8ArrayToBase64 (serialize exampleLib
              (addDefaultPage exampleLib (concat [[0x41, 0x42], [0x41, 0x42]])))))\<rparr>)"
    using buildMergedPdf_written[OF docs dir header_names(2) wr] unfolding android_names .
  have l: "load exampleLib (serialize exampleLib (addDefaultPage exampleLib (concat [[0x41, 0x42], [0x41, 0x42]]))) =
      Inr [0x41, 0x42, 0x41, 0x42]"
    by (simp add: exampleLib_def addDefaultPage_def getPageCount_def addPage_def)
  show ?thesis
    unfolding d b fst_conv snd_conv documentAt_written l
    by (simp add: totalPages_def androidPick_eval(2))
qed

end
